theory Spec2Isabelle
  imports Complex_Main "HOL-Library.Multiset"
begin

section \<open>Data model of the card table\<close>

text \<open>
  The program is a browser script: three classes (\<open>Card\<close>, \<open>Stack\<close>, \<open>Pile\<close>), three global
  variables (\<open>allObjects\<close>, \<open>dragging\<close>, \<open>lastDragged\<close>) and three mouse handlers that mutate
  them. JavaScript numbers are idealised as real numbers; a number that may be
  \<open>undefined\<close> or \<open>NaN\<close> is a \<open>real option\<close> with \<open>None\<close> for both (every comparison with
  either is false in JavaScript).

  \<open>direction\<close> is a number in the source that is only ever compared, by the strict equality
  of \<open>switch\<close>, with \<open>0\<close>, \<open>Math.PI * 0.5\<close>, \<open>Math.PI\<close> and \<open>Math.PI * 1.5\<close>, or copied. The
  datatype has one constructor for each of these four values and one for every other
  number, for which no \<open>case\<close> of the \<open>switch\<close> statements matches.
\<close>

datatype direction = Forward | Clockwise90 | Turned180 | Clockwise270 | Unsupported

text \<open>The \<open>outline\<close> field of a Card: \<open>false\<close>, \<open>"stack"\<close> or \<open>"pile"\<close>.\<close>

datatype outline = NoOutline | StackOutline | PileOutline

text \<open>The \<open>outlineIndex\<close> field of a Stack: \<open>false\<close>, \<open>undefined\<close> or a number.\<close>

datatype outlineIdx = IdxFalse | IdxUndefined | Idx int

text \<open>Of an \<open>HTMLImageElement\<close> the script reads the natural width and height only.\<close>

record image =
  naturalWidth :: real
  naturalHeight :: real

text \<open>Fields that all three classes have.\<close>

record entity =
  direction :: direction
  flipped :: bool

record Card = entity +
  size_c :: real
  num :: string
  suit :: string
  x_c :: real
  y_c :: real
  image_c :: image
  outline :: outline

text \<open>
  \<open>Stack\<close> and \<open>Pile\<close> extend \<open>Array\<close>: \<open>items\<close> is the array part, a list of references to
  Card objects. \<open>X_g\<close> and \<open>Y_g\<close> are the backing fields \<open>this.X\<close> and \<open>this.Y\<close> of the
  \<open>x\<close> and \<open>y\<close> accessors.
\<close>

record group = entity +
  items :: "nat list"
  X_g :: real
  Y_g :: real

record Stack = group +
  outlineIndex :: outlineIdx
  lastOutline :: bool

record Pile = group +
  isOutline :: bool

text \<open>
  A reference to an object carries the class of the object it points to
  (\<open>constructor.name\<close>); \<open>===\<close> on objects is equality of references.
\<close>

datatype ref = CardRef nat | StackRef nat | PileRef nat

datatype className = TCard | TStack | TPile

fun constructor_name :: "ref \<Rightarrow> className" where
  "constructor_name (CardRef i) = TCard"
| "constructor_name (StackRef i) = TStack"
| "constructor_name (PileRef i) = TPile"

section \<open>Geometry\<close>

text \<open>Comparisons and sums in which the right operand may be \<open>undefined\<close> or \<open>NaN\<close>.\<close>

definition num_le :: "real \<Rightarrow> real option \<Rightarrow> bool" where
  "num_le a b = (case b of None \<Rightarrow> False | Some v \<Rightarrow> a \<le> v)"

definition num_ge :: "real \<Rightarrow> real option \<Rightarrow> bool" where
  "num_ge a b = (case b of None \<Rightarrow> False | Some v \<Rightarrow> a \<ge> v)"

definition num_add :: "real \<Rightarrow> real option \<Rightarrow> real option" where
  "num_add a b = (case b of None \<Rightarrow> None | Some v \<Rightarrow> Some (a + v))"

definition num_sub :: "real \<Rightarrow> real option \<Rightarrow> real option" where
  "num_sub a b = (case b of None \<Rightarrow> None | Some v \<Rightarrow> Some (a - v))"

subsection \<open>Card\<close>

definition Card_width :: "Card \<Rightarrow> real" where
  "Card_width c = naturalWidth (image_c c) * size_c c"

definition Card_height :: "Card \<Rightarrow> real" where
  "Card_height c = naturalHeight (image_c c) * size_c c"

definition Card_cornerX :: "Card \<Rightarrow> real option" where
  "Card_cornerX c =
     (case direction c of
        Forward \<Rightarrow> Some (x_c c + Card_width c)
      | Clockwise90 \<Rightarrow> Some (x_c c - Card_height c)
      | Turned180 \<Rightarrow> Some (x_c c - Card_width c)
      | Clockwise270 \<Rightarrow> Some (x_c c + Card_height c)
      | Unsupported \<Rightarrow> None)"

definition Card_cornerY :: "Card \<Rightarrow> real option" where
  "Card_cornerY c =
     (case direction c of
        Forward \<Rightarrow> Some (y_c c + Card_height c)
      | Clockwise90 \<Rightarrow> Some (y_c c + Card_width c)
      | Turned180 \<Rightarrow> Some (y_c c - Card_height c)
      | Clockwise270 \<Rightarrow> Some (y_c c - Card_width c)
      | Unsupported \<Rightarrow> None)"

text \<open>\<open>isIn\<close> returns a boolean, or \<open>undefined\<close> (\<open>None\<close>) when no \<open>case\<close> matches.\<close>

definition Card_isIn :: "Card \<Rightarrow> real \<Rightarrow> real \<Rightarrow> bool option" where
  "Card_isIn c px py =
     (case direction c of
        Forward \<Rightarrow> Some (px \<ge> x_c c \<and> num_le px (Card_cornerX c) \<and> py \<ge> y_c c \<and> num_le py (Card_cornerY c))
      | Clockwise90 \<Rightarrow> Some (px \<le> x_c c \<and> num_ge px (Card_cornerX c) \<and> py \<ge> y_c c \<and> num_le py (Card_cornerY c))
      | Turned180 \<Rightarrow> Some (px \<le> x_c c \<and> num_ge px (Card_cornerX c) \<and> py \<le> y_c c \<and> num_ge py (Card_cornerY c))
      | Clockwise270 \<Rightarrow> Some (px \<ge> x_c c \<and> num_le px (Card_cornerX c) \<and> py \<le> y_c c \<and> num_ge py (Card_cornerY c))
      | Unsupported \<Rightarrow> None)"

subsection \<open>Stack\<close>

text \<open>
  The getters of a group read its first member, \<open>this[0]\<close>, through the heap of Card
  objects \<open>h\<close>; they are \<open>undefined\<close> for an empty group.
\<close>

definition Stack_width :: "(nat \<Rightarrow> Card) \<Rightarrow> Stack \<Rightarrow> real option" where
  "Stack_width h st =
     (case items st of
        [] \<Rightarrow> None
      | c0 # _ \<Rightarrow> Some (((real (length (items st)) - 1) * 45 * size_c (h c0))
                        + (naturalWidth (image_c (h c0)) * size_c (h c0))))"

definition Stack_height :: "(nat \<Rightarrow> Card) \<Rightarrow> Stack \<Rightarrow> real option" where
  "Stack_height h st =
     (case items st of
        [] \<Rightarrow> None
      | c0 # _ \<Rightarrow> Some (naturalHeight (image_c (h c0)) * size_c (h c0)))"

definition Stack_cornerX :: "(nat \<Rightarrow> Card) \<Rightarrow> Stack \<Rightarrow> real option" where
  "Stack_cornerX h st =
     (case direction st of
        Forward \<Rightarrow> num_add (X_g st) (Stack_width h st)
      | Clockwise90 \<Rightarrow> num_sub (X_g st) (Stack_height h st)
      | Turned180 \<Rightarrow> num_sub (X_g st) (Stack_width h st)
      | Clockwise270 \<Rightarrow> num_add (X_g st) (Stack_height h st)
      | Unsupported \<Rightarrow> None)"

definition Stack_cornerY :: "(nat \<Rightarrow> Card) \<Rightarrow> Stack \<Rightarrow> real option" where
  "Stack_cornerY h st =
     (case direction st of
        Forward \<Rightarrow> num_add (Y_g st) (Stack_height h st)
      | Clockwise90 \<Rightarrow> num_add (Y_g st) (Stack_width h st)
      | Turned180 \<Rightarrow> num_sub (Y_g st) (Stack_height h st)
      | Clockwise270 \<Rightarrow> num_sub (Y_g st) (Stack_width h st)
      | Unsupported \<Rightarrow> None)"

definition Stack_isIn :: "(nat \<Rightarrow> Card) \<Rightarrow> Stack \<Rightarrow> real \<Rightarrow> real \<Rightarrow> bool option" where
  "Stack_isIn h st px py =
     (case direction st of
        Forward \<Rightarrow> Some (px \<ge> X_g st \<and> num_le px (Stack_cornerX h st) \<and> py \<ge> Y_g st \<and> num_le py (Stack_cornerY h st))
      | Clockwise90 \<Rightarrow> Some (px \<le> X_g st \<and> num_ge px (Stack_cornerX h st) \<and> py \<ge> Y_g st \<and> num_le py (Stack_cornerY h st))
      | Turned180 \<Rightarrow> Some (px \<le> X_g st \<and> num_ge px (Stack_cornerX h st) \<and> py \<le> Y_g st \<and> num_ge py (Stack_cornerY h st))
      | Clockwise270 \<Rightarrow> Some (px \<ge> X_g st \<and> num_le px (Stack_cornerX h st) \<and> py \<le> Y_g st \<and> num_ge py (Stack_cornerY h st))
      | Unsupported \<Rightarrow> None)"

text \<open>
  \<open>getSpecCard(x, y, returnIndex, scrub, checkIsIn)\<close> returns \<open>false\<close>, a number (or
  \<open>undefined\<close>, when \<open>index\<close> was never assigned), or a member (or \<open>undefined\<close>, when the
  array has no such element).
\<close>

datatype specResult = RetFalse | RetIndex "int option" | RetCard "nat option"

definition Stack_index :: "Stack \<Rightarrow> real \<Rightarrow> real \<Rightarrow> int option" where
  "Stack_index st px py =
     (case direction st of
        Forward \<Rightarrow> Some \<lfloor>(px - X_g st) / 22.5\<rfloor>
      | Clockwise90 \<Rightarrow> Some \<lfloor>(py - Y_g st) / 22.5\<rfloor>
      | Turned180 \<Rightarrow> Some \<lfloor>(X_g st - px) / 22.5\<rfloor>
      | Clockwise270 \<Rightarrow> Some \<lfloor>(Y_g st - py) / 22.5\<rfloor>
      | Unsupported \<Rightarrow> None)"

text \<open>\<open>index < this.length ? index : this.length - 1\<close>; the test is false for \<open>undefined\<close>.\<close>

definition scrubbed :: "int option \<Rightarrow> nat \<Rightarrow> int" where
  "scrubbed index len =
     (case index of
        None \<Rightarrow> int len - 1
      | Some i \<Rightarrow> if i < int len then i else int len - 1)"

text \<open>\<open>a[i]\<close> for an integer \<open>i\<close>: \<open>undefined\<close> out of range.\<close>

definition js_nth :: "'a list \<Rightarrow> int \<Rightarrow> 'a option" where
  "js_nth xs i = (if 0 \<le> i \<and> i < int (length xs) then Some (xs ! nat i) else None)"

definition getSpecCard ::
  "(nat \<Rightarrow> Card) \<Rightarrow> Stack \<Rightarrow> real \<Rightarrow> real \<Rightarrow> bool \<Rightarrow> bool \<Rightarrow> bool \<Rightarrow> specResult" where
  "getSpecCard h st px py returnIndex scrub checkIsIn =
     (if checkIsIn \<and> Stack_isIn h st px py \<noteq> Some True then RetFalse
      else let index = Stack_index st px py in
        if returnIndex then
          RetIndex (if scrub then Some (scrubbed index (length (items st))) else index)
        else RetCard (js_nth (items st) (scrubbed index (length (items st)))))"

subsection \<open>Pile\<close>

definition Pile_width :: "(nat \<Rightarrow> Card) \<Rightarrow> Pile \<Rightarrow> real option" where
  "Pile_width h p =
     (case items p of
        [] \<Rightarrow> None
      | c0 # _ \<Rightarrow> Some (naturalWidth (image_c (h c0)) * size_c (h c0)))"

definition Pile_height :: "(nat \<Rightarrow> Card) \<Rightarrow> Pile \<Rightarrow> real option" where
  "Pile_height h p =
     (case items p of
        [] \<Rightarrow> None
      | c0 # _ \<Rightarrow> Some (naturalHeight (image_c (h c0)) * size_c (h c0)))"

definition Pile_cornerX :: "(nat \<Rightarrow> Card) \<Rightarrow> Pile \<Rightarrow> real option" where
  "Pile_cornerX h p =
     (case direction p of
        Forward \<Rightarrow> num_add (X_g p) (Pile_width h p)
      | Clockwise90 \<Rightarrow> num_sub (X_g p) (Pile_height h p)
      | Turned180 \<Rightarrow> num_sub (X_g p) (Pile_width h p)
      | Clockwise270 \<Rightarrow> num_add (X_g p) (Pile_height h p)
      | Unsupported \<Rightarrow> None)"

definition Pile_cornerY :: "(nat \<Rightarrow> Card) \<Rightarrow> Pile \<Rightarrow> real option" where
  "Pile_cornerY h p =
     (case direction p of
        Forward \<Rightarrow> num_add (Y_g p) (Pile_height h p)
      | Clockwise90 \<Rightarrow> num_add (Y_g p) (Pile_width h p)
      | Turned180 \<Rightarrow> num_sub (Y_g p) (Pile_height h p)
      | Clockwise270 \<Rightarrow> num_sub (Y_g p) (Pile_width h p)
      | Unsupported \<Rightarrow> None)"

definition Pile_isIn :: "(nat \<Rightarrow> Card) \<Rightarrow> Pile \<Rightarrow> real \<Rightarrow> real \<Rightarrow> bool option" where
  "Pile_isIn h p px py =
     (case direction p of
        Forward \<Rightarrow> Some (px \<ge> X_g p \<and> num_le px (Pile_cornerX h p) \<and> py \<ge> Y_g p \<and> num_le py (Pile_cornerY h p))
      | Clockwise90 \<Rightarrow> Some (px \<le> X_g p \<and> num_ge px (Pile_cornerX h p) \<and> py \<ge> Y_g p \<and> num_le py (Pile_cornerY h p))
      | Turned180 \<Rightarrow> Some (px \<le> X_g p \<and> num_ge px (Pile_cornerX h p) \<and> py \<le> Y_g p \<and> num_ge py (Pile_cornerY h p))
      | Clockwise270 \<Rightarrow> Some (px \<ge> X_g p \<and> num_le px (Pile_cornerX h p) \<and> py \<le> Y_g p \<and> num_ge py (Pile_cornerY h p))
      | Unsupported \<Rightarrow> None)"

section \<open>The global state\<close>

text \<open>
  The object literal assigned to \<open>dragging\<close>. The \<open>e\<close> field (the event object itself) is
  not read by any handler and is left out. Fields that a literal does not mention are
  \<open>undefined\<close>: \<open>None\<close>.
\<close>

record drag =
  type_d :: className
  object :: ref
  x_d :: real
  y_d :: real
  timeStamp_d :: real
  doubleClick :: bool
  specCard :: "nat option"
  specCardIndex :: "int option"
  draggedYet :: bool
  index_d :: int
  overIndex :: "int option"
  over :: "ref option"

record MouseEvent =
  clientX :: real
  clientY :: real
  button :: int
  timeStamp :: real
  movementX :: real
  movementY :: real

text \<open>
  The heap holds the objects of each class at natural-number addresses; \<open>nextId\<close> is the
  next address that \<open>new Stack\<close> or \<open>new Pile\<close> takes. \<open>dragging\<close> and \<open>lastDragged\<close> are \<open>None\<close>
  for the value \<open>false\<close>.
\<close>

record state =
  cardHeap :: "nat \<Rightarrow> Card"
  stackHeap :: "nat \<Rightarrow> Stack"
  pileHeap :: "nat \<Rightarrow> Pile"
  nextId :: nat
  allObjects :: "ref list"
  dragging :: "drag option"
  lastDragged :: "drag option"

text \<open>
  A handler that throws returns \<open>Inl\<close>. \<open>TypeError\<close> is JavaScript's own (a property of
  \<open>undefined\<close> is read or set, or a method is missing). \<open>Unrepresentable\<close> marks a step at
  which the script would go on with a value that the data model above does not have: a
  group member that is not a Card, or a coordinate that is \<open>NaN\<close>.
\<close>

datatype exn = TypeError | Unrepresentable

subsection \<open>Property access through a reference\<close>

fun get_flipped :: "state \<Rightarrow> ref \<Rightarrow> bool" where
  "get_flipped s (CardRef i) = flipped (cardHeap s i)"
| "get_flipped s (StackRef i) = flipped (stackHeap s i)"
| "get_flipped s (PileRef i) = flipped (pileHeap s i)"

fun set_flipped :: "ref \<Rightarrow> bool \<Rightarrow> state \<Rightarrow> state" where
  "set_flipped (CardRef i) v s = s\<lparr>cardHeap := (cardHeap s)(i := (cardHeap s i)\<lparr>flipped := v\<rparr>)\<rparr>"
| "set_flipped (StackRef i) v s = s\<lparr>stackHeap := (stackHeap s)(i := (stackHeap s i)\<lparr>flipped := v\<rparr>)\<rparr>"
| "set_flipped (PileRef i) v s = s\<lparr>pileHeap := (pileHeap s)(i := (pileHeap s i)\<lparr>flipped := v\<rparr>)\<rparr>"

fun get_direction :: "state \<Rightarrow> ref \<Rightarrow> direction" where
  "get_direction s (CardRef i) = direction (cardHeap s i)"
| "get_direction s (StackRef i) = direction (stackHeap s i)"
| "get_direction s (PileRef i) = direction (pileHeap s i)"

fun set_direction :: "ref \<Rightarrow> direction \<Rightarrow> state \<Rightarrow> state" where
  "set_direction (CardRef i) v s = s\<lparr>cardHeap := (cardHeap s)(i := (cardHeap s i)\<lparr>direction := v\<rparr>)\<rparr>"
| "set_direction (StackRef i) v s = s\<lparr>stackHeap := (stackHeap s)(i := (stackHeap s i)\<lparr>direction := v\<rparr>)\<rparr>"
| "set_direction (PileRef i) v s = s\<lparr>pileHeap := (pileHeap s)(i := (pileHeap s i)\<lparr>direction := v\<rparr>)\<rparr>"

text \<open>The \<open>x\<close> of a Card is a field; the \<open>x\<close> of a Stack or Pile is the getter of \<open>this.X\<close>.\<close>

fun get_x :: "state \<Rightarrow> ref \<Rightarrow> real" where
  "get_x s (CardRef i) = x_c (cardHeap s i)"
| "get_x s (StackRef i) = X_g (stackHeap s i)"
| "get_x s (PileRef i) = X_g (pileHeap s i)"

fun get_y :: "state \<Rightarrow> ref \<Rightarrow> real" where
  "get_y s (CardRef i) = y_c (cardHeap s i)"
| "get_y s (StackRef i) = Y_g (stackHeap s i)"
| "get_y s (PileRef i) = Y_g (pileHeap s i)"

text \<open>The setter of a group: \<open>if (this[0]) { this[0].x = a; } this.X = a;\<close>\<close>

definition first_x :: "nat list \<Rightarrow> real \<Rightarrow> (nat \<Rightarrow> Card) \<Rightarrow> (nat \<Rightarrow> Card)" where
  "first_x its v h = (case its of [] \<Rightarrow> h | c0 # _ \<Rightarrow> h(c0 := (h c0)\<lparr>x_c := v\<rparr>))"

definition first_y :: "nat list \<Rightarrow> real \<Rightarrow> (nat \<Rightarrow> Card) \<Rightarrow> (nat \<Rightarrow> Card)" where
  "first_y its v h = (case its of [] \<Rightarrow> h | c0 # _ \<Rightarrow> h(c0 := (h c0)\<lparr>y_c := v\<rparr>))"

fun set_x :: "ref \<Rightarrow> real \<Rightarrow> state \<Rightarrow> state" where
  "set_x (CardRef i) v s = s\<lparr>cardHeap := (cardHeap s)(i := (cardHeap s i)\<lparr>x_c := v\<rparr>)\<rparr>"
| "set_x (StackRef i) v s =
     s\<lparr>cardHeap := first_x (items (stackHeap s i)) v (cardHeap s),
       stackHeap := (stackHeap s)(i := (stackHeap s i)\<lparr>X_g := v\<rparr>)\<rparr>"
| "set_x (PileRef i) v s =
     s\<lparr>cardHeap := first_x (items (pileHeap s i)) v (cardHeap s),
       pileHeap := (pileHeap s)(i := (pileHeap s i)\<lparr>X_g := v\<rparr>)\<rparr>"

fun set_y :: "ref \<Rightarrow> real \<Rightarrow> state \<Rightarrow> state" where
  "set_y (CardRef i) v s = s\<lparr>cardHeap := (cardHeap s)(i := (cardHeap s i)\<lparr>y_c := v\<rparr>)\<rparr>"
| "set_y (StackRef i) v s =
     s\<lparr>cardHeap := first_y (items (stackHeap s i)) v (cardHeap s),
       stackHeap := (stackHeap s)(i := (stackHeap s i)\<lparr>Y_g := v\<rparr>)\<rparr>"
| "set_y (PileRef i) v s =
     s\<lparr>cardHeap := first_y (items (pileHeap s i)) v (cardHeap s),
       pileHeap := (pileHeap s)(i := (pileHeap s i)\<lparr>Y_g := v\<rparr>)\<rparr>"

text \<open>The array part of an object: a Card has none (its \<open>length\<close> is \<open>undefined\<close>).\<close>

fun get_items :: "state \<Rightarrow> ref \<Rightarrow> nat list option" where
  "get_items s (CardRef i) = None"
| "get_items s (StackRef i) = Some (items (stackHeap s i))"
| "get_items s (PileRef i) = Some (items (pileHeap s i))"

fun set_items :: "ref \<Rightarrow> nat list \<Rightarrow> state \<Rightarrow> state" where
  "set_items (CardRef i) v s = s"
| "set_items (StackRef i) v s = s\<lparr>stackHeap := (stackHeap s)(i := (stackHeap s i)\<lparr>items := v\<rparr>)\<rparr>"
| "set_items (PileRef i) v s = s\<lparr>pileHeap := (pileHeap s)(i := (pileHeap s i)\<lparr>items := v\<rparr>)\<rparr>"

fun isIn :: "state \<Rightarrow> ref \<Rightarrow> real \<Rightarrow> real \<Rightarrow> bool option" where
  "isIn s (CardRef i) px py = Card_isIn (cardHeap s i) px py"
| "isIn s (StackRef i) px py = Stack_isIn (cardHeap s) (stackHeap s i) px py"
| "isIn s (PileRef i) px py = Pile_isIn (cardHeap s) (pileHeap s i) px py"

subsection \<open>Array methods\<close>

text \<open>\<open>findIndex\<close>: the first index at which the callback is truthy, or \<open>-1\<close>.\<close>

fun findIndex :: "('a \<Rightarrow> bool) \<Rightarrow> 'a list \<Rightarrow> int" where
  "findIndex P [] = - 1"
| "findIndex P (a # as) =
     (if P a then 0 else (let k = findIndex P as in if k = - 1 then - 1 else k + 1))"

text \<open>\<open>indexOf\<close>, also of \<open>undefined\<close>, which no array of the model contains.\<close>

definition indexOf :: "'a list \<Rightarrow> 'a option \<Rightarrow> int" where
  "indexOf xs v = (case v of None \<Rightarrow> - 1 | Some a \<Rightarrow> findIndex (\<lambda>b. b = a) xs)"

text \<open>
  The start index of \<open>splice\<close>: \<open>undefined\<close> counts as 0, a negative number counts from the
  end, and the result is clamped to the length.
\<close>

definition splice_start :: "int option \<Rightarrow> nat \<Rightarrow> nat" where
  "splice_start start len =
     (case start of
        None \<Rightarrow> 0
      | Some i \<Rightarrow> if i < 0 then nat (max (int len + i) 0) else min (nat i) len)"

text \<open>\<open>xs.splice(start, 1)[0]\<close> and the array left.\<close>

definition splice_remove :: "'a list \<Rightarrow> int option \<Rightarrow> 'a option \<times> 'a list" where
  "splice_remove xs start =
     (let k = splice_start start (length xs)
      in (if k < length xs then Some (xs ! k) else None, take k xs @ drop (Suc k) xs))"

text \<open>\<open>xs.splice(start, 0, v)\<close>.\<close>

definition splice_insert :: "'a list \<Rightarrow> int option \<Rightarrow> 'a \<Rightarrow> 'a list" where
  "splice_insert xs start v =
     (let k = splice_start start (length xs) in take k xs @ v # drop k xs)"

text \<open>\<open>xs.splice(start, 1, v)\<close>.\<close>

definition splice_replace :: "'a list \<Rightarrow> int option \<Rightarrow> 'a \<Rightarrow> 'a list" where
  "splice_replace xs start v =
     (let k = splice_start start (length xs) in take k xs @ v # drop (Suc k) xs)"

section \<open>Drawing\<close>

text \<open>
  \<open>tick\<close> calls \<open>draw\<close> on every object of \<open>allObjects\<close>, last to first. Painting on the
  canvas is outside the model; what the \<open>draw\<close> methods assign to fields is in it.
\<close>

definition Card_draw :: "nat \<Rightarrow> state \<Rightarrow> state" where
  "Card_draw i s = s\<lparr>cardHeap := (cardHeap s)(i := (cardHeap s i)\<lparr>outline := NoOutline\<rparr>)\<rparr>"

text \<open>\<open>dragging.specCard && !dragging.doubleClick && a === dragging.specCard\<close>\<close>

definition isSpecCard :: "drag option \<Rightarrow> nat \<Rightarrow> bool" where
  "isSpecCard dr a = (case dr of None \<Rightarrow> False | Some d \<Rightarrow> specCard d = Some a \<and> \<not> doubleClick d)"

text \<open>The \<open>forEach\<close> of \<open>Stack.draw\<close>, from index \<open>b\<close> on, threading \<open>this.outlineIndex\<close>.\<close>

fun Stack_draw_forEach :: "drag option \<Rightarrow> nat list \<Rightarrow> nat \<Rightarrow> outlineIdx \<Rightarrow> outlineIdx" where
  "Stack_draw_forEach dr [] b oi = oi"
| "Stack_draw_forEach dr (a # as) b oi =
     Stack_draw_forEach dr as (Suc b)
       (if oi = Idx (int b) \<or> isSpecCard dr a
        then (if oi \<noteq> IdxFalse then IdxFalse else oi)
        else oi)"

text \<open>With \<open>lastOutline\<close> set, \<open>this[0].size\<close> is read: a TypeError on an empty Stack.\<close>

definition Stack_draw :: "nat \<Rightarrow> state \<Rightarrow> exn + state" where
  "Stack_draw i s =
     (let st = stackHeap s i;
          oi = Stack_draw_forEach (dragging s) (items st) 0 (outlineIndex st)
      in if lastOutline st then
           (if items st = [] then Inl TypeError
            else Inr (s\<lparr>stackHeap := (stackHeap s)(i := st\<lparr>outlineIndex := oi, lastOutline := False\<rparr>)\<rparr>))
         else Inr (s\<lparr>stackHeap := (stackHeap s)(i := st\<lparr>outlineIndex := oi\<rparr>)\<rparr>))"

text \<open>\<open>Pile.draw(z = 0.5)\<close>: \<open>[this[0].x, this[0].y, this[0].size] = [this.x, this.y, z]\<close>.\<close>

definition Pile_draw :: "nat \<Rightarrow> state \<Rightarrow> state" where
  "Pile_draw i s =
     (let p = pileHeap s i
      in case items p of
           [] \<Rightarrow> s
         | c0 # _ \<Rightarrow>
             s\<lparr>cardHeap := (cardHeap s)(c0 := (cardHeap s c0)\<lparr>x_c := X_g p, y_c := Y_g p, size_c := 0.5\<rparr>),
               pileHeap := (pileHeap s)(i := p\<lparr>isOutline := False\<rparr>)\<rparr>)"

fun draw :: "ref \<Rightarrow> state \<Rightarrow> exn + state" where
  "draw (CardRef i) s = Inr (Card_draw i s)"
| "draw (StackRef i) s = Stack_draw i s"
| "draw (PileRef i) s = Inr (Pile_draw i s)"

fun draw_each :: "ref list \<Rightarrow> state \<Rightarrow> exn + state" where
  "draw_each [] s = Inr s"
| "draw_each (a # as) s = (case draw a s of Inl ex \<Rightarrow> Inl ex | Inr s' \<Rightarrow> draw_each as s')"

definition tick :: "state \<Rightarrow> exn + state" where
  "tick s = draw_each (rev (allObjects s)) s"

section \<open>The mousedown handler\<close>

text \<open>\<open>object.reverse()\<close>, called on a Stack or Pile only.\<close>

definition reverse_group :: "ref \<Rightarrow> state \<Rightarrow> state" where
  "reverse_group r s = (case get_items s r of None \<Rightarrow> s | Some its \<Rightarrow> set_items r (rev its) s)"

text \<open>
  The left button turns a flipped object face up, the right button turns an unflipped
  object face down; a group is reversed first. Any other button changes nothing.
\<close>

definition flip_on_press :: "int \<Rightarrow> ref \<Rightarrow> state \<Rightarrow> state" where
  "flip_on_press b r s =
     (if b = 0 then
        (if get_flipped s r then set_flipped r False (reverse_group r s) else s)
      else if b = 2 then
        (if \<not> get_flipped s r then set_flipped r True (reverse_group r s) else s)
      else s)"

text \<open>
  \<open>((e.timeStamp - lastDragged.timeStamp) < 500) && (object === lastDragged.object)\<close>; with
  \<open>lastDragged\<close> still \<open>false\<close> the difference is \<open>NaN\<close> and the test is false.
\<close>

definition isDoubleClick :: "drag option \<Rightarrow> real \<Rightarrow> ref \<Rightarrow> bool" where
  "isDoubleClick prev t r =
     (case prev of
        None \<Rightarrow> False
      | Some l \<Rightarrow> (t - timeStamp_d l) < 500 \<and> r = object l)"

text \<open>\<open>object.getSpecCard(x, y)\<close> with the default arguments, for a Stack.\<close>

definition pressedCard :: "state \<Rightarrow> ref \<Rightarrow> real \<Rightarrow> real \<Rightarrow> nat option" where
  "pressedCard s r px py =
     (case r of
        StackRef i \<Rightarrow>
          (case getSpecCard (cardHeap s) (stackHeap s i) px py False True False of
             RetCard c \<Rightarrow> c
           | _ \<Rightarrow> None)
      | _ \<Rightarrow> None)"

definition pressedCardIndex :: "state \<Rightarrow> ref \<Rightarrow> real \<Rightarrow> real \<Rightarrow> int option" where
  "pressedCardIndex s r px py =
     (case r of
        StackRef i \<Rightarrow> Some (indexOf (items (stackHeap s i)) (pressedCard s r px py))
      | _ \<Rightarrow> None)"

text \<open>
  \<open>if (allObjects[0] !== object) allObjects.unshift(allObjects.splice(allObjects.indexOf(object), 1)[0])\<close>,
  for an \<open>object\<close> that was found in \<open>allObjects\<close>.
\<close>

definition raiseToTop :: "ref \<Rightarrow> ref list \<Rightarrow> ref list" where
  "raiseToTop r objs = (if js_nth objs 0 \<noteq> Some r then r # remove1 r objs else objs)"

definition mousedown :: "MouseEvent \<Rightarrow> state \<Rightarrow> exn + state" where
  "mousedown e s =
     (if dragging s \<noteq> None then Inr s
      else
        let px = clientX e;
            py = clientY e;
            index = findIndex (\<lambda>a. isIn s a px py = Some True) (allObjects s)
        in case js_nth (allObjects s) index of
             None \<Rightarrow> Inr s
           | Some obj \<Rightarrow>
               let s1 = flip_on_press (button e) obj s;
                   d = \<lparr>type_d = constructor_name obj,
                        object = obj,
                        x_d = px,
                        y_d = py,
                        timeStamp_d = timeStamp e,
                        doubleClick = isDoubleClick (lastDragged s1) (timeStamp e) obj,
                        specCard = pressedCard s1 obj px py,
                        specCardIndex = pressedCardIndex s1 obj px py,
                        draggedYet = False,
                        index_d = index,
                        overIndex = None,
                        over = None\<rparr>;
                   s2 = s1\<lparr>dragging := Some d\<rparr>;
                   s3 = s2\<lparr>allObjects := raiseToTop obj (allObjects s2)\<rparr>
               in tick s3)"

section \<open>The mousemove handler\<close>

text \<open>
  \<open>if (allObjects[1].length === 1) { ... allObjects.splice(1, 1, allObjects[1][0]); }\<close>: the
  one member left takes the group's flipped state and direction and the position
  \<open>(x - off, y - off)\<close>, and the group's place in \<open>allObjects\<close>. \<open>off\<close> is 0 in the Stack
  branch and 2 in the Pile branch.
\<close>

definition degenerate :: "real \<Rightarrow> state \<Rightarrow> exn + state" where
  "degenerate off s =
     (case js_nth (allObjects s) 1 of
        None \<Rightarrow> Inl TypeError
      | Some g \<Rightarrow>
          (case get_items s g of
             Some [m] \<Rightarrow>
               let s1 = set_flipped (CardRef m) (get_flipped s g) s;
                   s2 = set_direction (CardRef m) (get_direction s1 g) s1;
                   s3 = set_x (CardRef m) (get_x s2 g - off) s2;
                   s4 = set_y (CardRef m) (get_y s3 g - off) s3
               in Inr (s4\<lparr>allObjects := splice_replace (allObjects s4) (Some 1) (CardRef m)\<rparr>)
           | _ \<Rightarrow> Inr s))"

text \<open>The object literal that replaces \<open>dragging\<close> after an extraction.\<close>

definition retarget :: "MouseEvent \<Rightarrow> ref \<Rightarrow> drag" where
  "retarget e r =
     \<lparr>type_d = TCard,
      object = r,
      x_d = clientX e,
      y_d = clientY e,
      timeStamp_d = timeStamp e,
      doubleClick = False,
      specCard = None,
      specCardIndex = None,
      draggedYet = True,
      index_d = 0,
      overIndex = None,
      over = None\<rparr>"

text \<open>
  \<open>switch (allObjects[0].direction)\<close>: the extracted Card goes to the place in the fan it
  was drawn at, \<open>specCardIndex * 22.5\<close> from \<open>allObjects[1]\<close>. With \<open>specCardIndex\<close>
  undefined the product is \<open>NaN\<close>.
\<close>

definition reposition :: "int option \<Rightarrow> ref \<Rightarrow> ref \<Rightarrow> state \<Rightarrow> exn + state" where
  "reposition idx a0 a1 s =
     (case get_direction s a0 of
        Unsupported \<Rightarrow> Inr s
      | dir \<Rightarrow>
          (case idx of
             None \<Rightarrow> Inl Unrepresentable
           | Some k \<Rightarrow>
               (case dir of
                  Forward \<Rightarrow>
                    (let s1 = set_x a0 (get_x s a1 + (real_of_int k * 22.5)) s
                     in Inr (set_y a0 (get_y s1 a1) s1))
                | Clockwise90 \<Rightarrow>
                    (let s1 = set_x a0 (get_x s a1) s
                     in Inr (set_y a0 (get_y s1 a1 + (real_of_int k * 22.5)) s1))
                | Turned180 \<Rightarrow>
                    (let s1 = set_x a0 (get_x s a1 - (real_of_int k * 22.5)) s
                     in Inr (set_y a0 (get_y s1 a1) s1))
                | Clockwise270 \<Rightarrow>
                    (let s1 = set_x a0 (get_x s a1) s
                     in Inr (set_y a0 (get_y s1 a1 - (real_of_int k * 22.5)) s1))
                | Unsupported \<Rightarrow> Inr s)))"

text \<open>
  The Stack branch of the first move, for a single click. \<open>splice\<close> is a method of arrays:
  on a Card the call throws. When nothing is removed, \<open>undefined\<close> is unshifted and the next
  statement throws. \<open>allObjects[1]\<close> is what was first before the \<open>unshift\<close>.
\<close>

definition extract_stack :: "MouseEvent \<Rightarrow> drag \<Rightarrow> state \<Rightarrow> exn + state" where
  "extract_stack e d s =
     (case get_items s (object d) of
        None \<Rightarrow> Inl TypeError
      | Some its \<Rightarrow>
          (case splice_remove its (specCardIndex d) of
             (None, rest) \<Rightarrow> Inl TypeError
           | (Some c, rest) \<Rightarrow>
               (case allObjects s of
                  [] \<Rightarrow> Inl TypeError
                | g # others \<Rightarrow>
                    (let s1 = set_items (object d) rest s;
                         s2 = s1\<lparr>allObjects := CardRef c # allObjects s1\<rparr>;
                         s3 = set_flipped (CardRef c) (get_flipped s2 g) s2;
                         s4 = set_direction (CardRef c) (get_direction s3 g) s3
                     in (case degenerate 0 s4 of
                           Inl ex \<Rightarrow> Inl ex
                         | Inr s5 \<Rightarrow>
                             (case allObjects s5 of
                                a0 # a1 # _ \<Rightarrow>
                                  (case reposition (specCardIndex d) a0 a1 (s5\<lparr>dragging := Some (retarget e a0)\<rparr>) of
                                     Inl ex \<Rightarrow> Inl ex
                                   | Inr s7 \<Rightarrow> Inr (set_direction a0 (get_direction s7 a1) s7))
                              | _ \<Rightarrow> Inl TypeError))))))"

text \<open>The Pile branch: \<open>allObjects.unshift(dragging.object.shift())\<close>.\<close>

definition extract_pile :: "MouseEvent \<Rightarrow> drag \<Rightarrow> state \<Rightarrow> exn + state" where
  "extract_pile e d s =
     (case get_items s (object d) of
        None \<Rightarrow> Inl TypeError
      | Some [] \<Rightarrow> Inl TypeError
      | Some (c # rest) \<Rightarrow>
          (case allObjects s of
             [] \<Rightarrow> Inl TypeError
           | g # others \<Rightarrow>
               (let s1 = set_items (object d) rest s;
                    s2 = s1\<lparr>allObjects := CardRef c # allObjects s1\<rparr>;
                    s3 = set_flipped (CardRef c) (get_flipped s2 g) s2;
                    s4 = set_direction (CardRef c) (get_direction s3 g) s3
                in (case degenerate 2 s4 of
                      Inl ex \<Rightarrow> Inl ex
                    | Inr s5 \<Rightarrow>
                        (case allObjects s5 of
                           a0 # _ \<Rightarrow> Inr (s5\<lparr>dragging := Some (retarget e a0)\<rparr>)
                         | [] \<Rightarrow> Inl TypeError)))))"

text \<open>\<open>dragging.draggedYet = true\<close>, on whatever \<open>dragging\<close> is by then.\<close>

definition set_draggedYet :: "state \<Rightarrow> state" where
  "set_draggedYet s =
     (case dragging s of None \<Rightarrow> s | Some d \<Rightarrow> s\<lparr>dragging := Some (d\<lparr>draggedYet := True\<rparr>)\<rparr>)"

text \<open>The block \<open>if (!dragging.draggedYet) { ... }\<close>.\<close>

definition first_move :: "MouseEvent \<Rightarrow> state \<Rightarrow> exn + state" where
  "first_move e s =
     (case dragging s of
        None \<Rightarrow> Inr s
      | Some d \<Rightarrow>
          if draggedYet d then Inr s
          else
            (case (case type_d d of
                     TCard \<Rightarrow> Inr s
                   | TStack \<Rightarrow> if doubleClick d then Inr s else extract_stack e d s
                   | TPile \<Rightarrow> if doubleClick d then Inr s else extract_pile e d s) of
               Inl ex \<Rightarrow> Inl ex
             | Inr s' \<Rightarrow> Inr (set_draggedYet s')))"

text \<open>
  \<open>allObjects[0].x += e.movementX; allObjects[0].y += e.movementY\<close>: for a Card always, for
  a Stack or Pile after a double click only.
\<close>

definition move_target :: "MouseEvent \<Rightarrow> state \<Rightarrow> exn + state" where
  "move_target e s =
     (case dragging s of
        None \<Rightarrow> Inr s
      | Some d \<Rightarrow>
          if type_d d = TCard \<or> doubleClick d then
            (case allObjects s of
               [] \<Rightarrow> Inl TypeError
             | a0 # _ \<Rightarrow>
                 let s1 = set_x a0 (get_x s a0 + movementX e) s
                 in Inr (set_y a0 (get_y s1 a0 + movementY e) s1))
          else Inr s)"

text \<open>The index that \<open>getSpecCard(x, y, true, false)\<close> returns.\<close>

definition rawIndex :: "state \<Rightarrow> nat \<Rightarrow> real \<Rightarrow> real \<Rightarrow> int option" where
  "rawIndex s i px py =
     (case getSpecCard (cardHeap s) (stackHeap s i) px py True False False of
        RetIndex k \<Rightarrow> k
      | _ \<Rightarrow> None)"

text \<open>
  The block that marks the object under the pointer. \<open>overSpecCardIndex > length\<close> is false
  for \<open>undefined\<close>, which then is what \<open>outlineIndex\<close> becomes.
\<close>

definition mark_stack :: "nat \<Rightarrow> int option \<Rightarrow> state \<Rightarrow> state" where
  "mark_stack i k s =
     (let st = stackHeap s i
      in case k of
           None \<Rightarrow> s\<lparr>stackHeap := (stackHeap s)(i := st\<lparr>outlineIndex := IdxUndefined\<rparr>)\<rparr>
         | Some n \<Rightarrow>
             if n > int (length (items st)) then
               s\<lparr>stackHeap := (stackHeap s)(i := st\<lparr>outlineIndex := Idx (int (length (items st))), lastOutline := True\<rparr>)\<rparr>
             else s\<lparr>stackHeap := (stackHeap s)(i := st\<lparr>outlineIndex := Idx n\<rparr>)\<rparr>)"

text \<open>The test on \<open>xDiff\<close> and \<open>yDiff\<close>, the same in mousemove and mouseup.\<close>

definition band :: "real \<Rightarrow> real \<Rightarrow> real \<Rightarrow> outline" where
  "band xDiff yDiff height =
     (if yDiff < 0.5 * height then
        (if 22.5 \<le> xDiff \<and> xDiff < 45 then StackOutline
         else if - 22.5 \<le> xDiff \<and> xDiff < 22.5 then PileOutline
         else NoOutline)
      else NoOutline)"

definition mark_card :: "nat \<Rightarrow> drag \<Rightarrow> state \<Rightarrow> state" where
  "mark_card i d s =
     (let xDiff = get_x s (object d) - x_c (cardHeap s i);
          yDiff = get_y s (object d) - y_c (cardHeap s i)
      in case band xDiff yDiff (Card_height (cardHeap s i)) of
           NoOutline \<Rightarrow> s
         | ol \<Rightarrow> s\<lparr>cardHeap := (cardHeap s)(i := (cardHeap s i)\<lparr>outline := ol\<rparr>)\<rparr>)"

definition hover :: "MouseEvent \<Rightarrow> state \<Rightarrow> state" where
  "hover e s =
     (case dragging s of
        None \<Rightarrow> s
      | Some d \<Rightarrow>
          if type_d d = TCard then
            let k = findIndex (\<lambda>a. a \<noteq> object d \<and> isIn s a (clientX e) (clientY e) = Some True) (allObjects s);
                ov = js_nth (allObjects s) k;
                d1 = d\<lparr>overIndex := Some k, over := ov\<rparr>;
                s1 = s\<lparr>dragging := Some d1\<rparr>
            in case ov of
                 None \<Rightarrow> s1
               | Some (PileRef i) \<Rightarrow> s1\<lparr>pileHeap := (pileHeap s1)(i := (pileHeap s1 i)\<lparr>isOutline := True\<rparr>)\<rparr>
               | Some (StackRef i) \<Rightarrow> mark_stack i (rawIndex s1 i (clientX e) (clientY e)) s1
               | Some (CardRef i) \<Rightarrow> mark_card i d1 s1
          else s)"

definition mousemove :: "MouseEvent \<Rightarrow> state \<Rightarrow> exn + state" where
  "mousemove e s =
     (case dragging s of
        None \<Rightarrow> Inr s
      | Some d \<Rightarrow>
          (let s1 = s\<lparr>dragging := Some (d\<lparr>x_d := clientX e, y_d := clientY e\<rparr>)\<rparr>
           in (case first_move e s1 of
                 Inl ex \<Rightarrow> Inl ex
               | Inr s2 \<Rightarrow>
                   (case move_target e s2 of
                      Inl ex \<Rightarrow> Inl ex
                    | Inr s3 \<Rightarrow> tick (hover e s3)))))"

section \<open>The mouseup handler\<close>

text \<open>\<open>dragging.over.unshift(allObjects[0]); allObjects.splice(0, 1);\<close> for a Pile.\<close>

definition drop_on_pile :: "nat \<Rightarrow> state \<Rightarrow> exn + state" where
  "drop_on_pile i s =
     (case allObjects s of
        CardRef c # others \<Rightarrow>
          Inr (s\<lparr>pileHeap := (pileHeap s)(i := (pileHeap s i)\<lparr>items := c # items (pileHeap s i)\<rparr>),
                 allObjects := others\<rparr>)
      | _ \<Rightarrow> Inl Unrepresentable)"

text \<open>
  The Stack branch: the Card goes in at \<open>overSpecCardIndex\<close>, or at the end when that is
  greater than the length; the branch ends with a \<open>tick\<close> of its own.
\<close>

definition drop_on_stack :: "nat \<Rightarrow> drag \<Rightarrow> state \<Rightarrow> exn + state" where
  "drop_on_stack i d s =
     (case allObjects s of
        CardRef c # others \<Rightarrow>
          let st = stackHeap s i;
              k = rawIndex s i (x_d d) (y_d d);
              start = (case k of
                         None \<Rightarrow> None
                       | Some n \<Rightarrow> if n > int (length (items st)) then Some (int (length (items st))) else Some n);
              st1 = st\<lparr>items := splice_insert (items st) start c\<rparr>;
              st2 = (if lastOutline st1 then st1\<lparr>outlineIndex := IdxFalse, lastOutline := False\<rparr> else st1)
          in tick (s\<lparr>stackHeap := (stackHeap s)(i := st2), allObjects := others\<rparr>)
      | _ \<Rightarrow> Inl Unrepresentable)"

text \<open>
  \<open>new Stack(x, y, a, b)\<close> and \<open>new Pile(x, y, a, b)\<close>: the setters run while the array is
  still empty, so no member is moved; then both members are pushed.
\<close>

definition new_Stack :: "real \<Rightarrow> real \<Rightarrow> nat list \<Rightarrow> Stack" where
  "new_Stack px py its =
     \<lparr>direction = Forward, flipped = False, items = its, X_g = px, Y_g = py,
      outlineIndex = IdxFalse, lastOutline = False\<rparr>"

definition new_Pile :: "real \<Rightarrow> real \<Rightarrow> nat list \<Rightarrow> Pile" where
  "new_Pile px py its =
     \<lparr>direction = Forward, flipped = False, items = its, X_g = px, Y_g = py,
      isOutline = False\<rparr>"

text \<open>
  The Card branch, once the band is known:
  \<open>allObjects.splice(0, 1, new Stack(over.x, over.y, allObjects.splice(overIndex, 1)[0], dragging.object))\<close>
  and the two assignments after it. The inner \<open>splice\<close> runs first, as an argument of the
  outer one.
\<close>

definition merge_cards :: "outline \<Rightarrow> nat \<Rightarrow> drag \<Rightarrow> state \<Rightarrow> exn + state" where
  "merge_cards b i d s =
     (case b of
        NoOutline \<Rightarrow> Inr s
      | _ \<Rightarrow>
          (case (splice_remove (allObjects s) (overIndex d), object d) of
             ((Some (CardRef a), objs), CardRef c) \<Rightarrow>
               let n = nextId s;
                   ov = cardHeap s i;
                   g = (if b = StackOutline then StackRef n else PileRef n);
                   s1 = (if b = StackOutline
                         then s\<lparr>stackHeap := (stackHeap s)(n := new_Stack (x_c ov) (y_c ov) [a, c])\<rparr>
                         else s\<lparr>pileHeap := (pileHeap s)(n := new_Pile (x_c ov) (y_c ov) [a, c])\<rparr>);
                   s2 = s1\<lparr>nextId := Suc n, allObjects := splice_replace objs (Some 0) g\<rparr>
               in (case allObjects s2 of
                     a0 # _ \<Rightarrow>
                       let s3 = set_flipped a0 (flipped (cardHeap s2 i)) s2
                       in Inr (set_direction a0 (direction (cardHeap s3 i)) s3)
                   | [] \<Rightarrow> Inl TypeError)
           | _ \<Rightarrow> Inl Unrepresentable))"

definition drop_on_card :: "nat \<Rightarrow> drag \<Rightarrow> state \<Rightarrow> exn + state" where
  "drop_on_card i d s =
     (let xDiff = get_x s (object d) - x_c (cardHeap s i);
          yDiff = get_y s (object d) - y_c (cardHeap s i)
      in merge_cards (band xDiff yDiff (Card_height (cardHeap s i))) i d s)"

definition mouseup :: "state \<Rightarrow> exn + state" where
  "mouseup s =
     (case dragging s of
        None \<Rightarrow> tick s
      | Some d \<Rightarrow>
          (let s1 = s\<lparr>lastDragged := Some d\<rparr>
           in (case (case over d of
                       None \<Rightarrow> Inr s1
                     | Some (PileRef i) \<Rightarrow> drop_on_pile i s1
                     | Some (StackRef i) \<Rightarrow> drop_on_stack i d s1
                     | Some (CardRef i) \<Rightarrow> drop_on_card i d s1) of
                 Inl ex \<Rightarrow> Inl ex
               | Inr s2 \<Rightarrow> tick (s2\<lparr>dragging := None\<rparr>))))"

section \<open>The geometry as the specification words it\<close>

text \<open>
  A range from the anchor to the opposite corner, ascending or descending, and the
  region test for each quarter turn with the corner formulas written out: corner
  \<open>(x+w, y+h)\<close> at 0 degrees, \<open>(x-h, y+w)\<close> at 90, \<open>(x-w, y-h)\<close> at 180, \<open>(x+h, y-w)\<close> at 270.
\<close>

definition ascending :: "real \<Rightarrow> real \<Rightarrow> real \<Rightarrow> bool" where
  "ascending a b v = (a \<le> v \<and> v \<le> b)"

definition descending :: "real \<Rightarrow> real \<Rightarrow> real \<Rightarrow> bool" where
  "descending a b v = (b \<le> v \<and> v \<le> a)"

fun spec_inside :: "direction \<Rightarrow> real \<Rightarrow> real \<Rightarrow> real \<Rightarrow> real \<Rightarrow> real \<Rightarrow> real \<Rightarrow> bool" where
  "spec_inside Forward ax ay w h px py = (ascending ax (ax + w) px \<and> ascending ay (ay + h) py)"
| "spec_inside Clockwise90 ax ay w h px py = (descending ax (ax - h) px \<and> ascending ay (ay + w) py)"
| "spec_inside Turned180 ax ay w h px py = (descending ax (ax - w) px \<and> descending ay (ay - h) py)"
| "spec_inside Clockwise270 ax ay w h px py = (ascending ax (ax + h) px \<and> descending ay (ay - w) py)"
| "spec_inside Unsupported ax ay w h px py = False"

text \<open>The distance from the anchor along the fan axis, and the fan index.\<close>

fun spec_axis_distance :: "direction \<Rightarrow> real \<Rightarrow> real \<Rightarrow> real \<Rightarrow> real \<Rightarrow> real" where
  "spec_axis_distance Forward ax ay px py = px - ax"
| "spec_axis_distance Clockwise90 ax ay px py = py - ay"
| "spec_axis_distance Turned180 ax ay px py = ax - px"
| "spec_axis_distance Clockwise270 ax ay px py = ay - py"
| "spec_axis_distance Unsupported ax ay px py = 0"

definition spec_fan_index :: "Stack \<Rightarrow> real \<Rightarrow> real \<Rightarrow> int" where
  "spec_fan_index st px py = \<lfloor>spec_axis_distance (direction st) (X_g st) (Y_g st) px py / 22.5\<rfloor>"

section \<open>Example objects\<close>

text \<open>A card image of 168 by 244 pixels, and \<open>new Card(name, x, y)\<close> with the default size.\<close>

definition img :: image where
  "img = \<lparr>naturalWidth = 168, naturalHeight = 244\<rparr>"

definition mkCard :: "real \<Rightarrow> real \<Rightarrow> Card" where
  "mkCard px py =
     \<lparr>direction = Forward, flipped = False, size_c = 0.5, num = ''a'', suit = ''s'',
      x_c = px, y_c = py, image_c = img, outline = NoOutline\<rparr>"

text \<open>
  The band test of a card released over a card in the words of the spec: the thresholds 22.5 and
  45 are multiplied by \<open>scaleUnit\<close>, the dragged card's own scale.
\<close>

definition spec_band :: "real \<Rightarrow> real \<Rightarrow> real \<Rightarrow> real \<Rightarrow> outline" where
  "spec_band scaleUnit dx dy height =
     (if dy < 0.5 * height then
        (if 22.5 * scaleUnit \<le> dx \<and> dx < 45 * scaleUnit then StackOutline
         else if - 22.5 * scaleUnit \<le> dx \<and> dx < 22.5 * scaleUnit then PileOutline
         else NoOutline)
      else NoOutline)"

section \<open>Ownership and the state of a session\<close>

fun members :: "state \<Rightarrow> ref \<Rightarrow> nat list" where
  "members s (CardRef i) = [i]"
| "members s (StackRef i) = items (stackHeap s i)"
| "members s (PileRef i) = items (pileHeap s i)"

definition allCards :: "state \<Rightarrow> nat list" where
  "allCards s = concat (map (members s) (allObjects s))"

definition ownership :: "state \<Rightarrow> bool" where
  "ownership s = (distinct (allObjects s) \<and> distinct (allCards s))"

definition fresh_ids :: "state \<Rightarrow> bool" where
  "fresh_ids s =
     (\<forall>r \<in> set (allObjects s).
        case r of CardRef c \<Rightarrow> True | StackRef i \<Rightarrow> i < nextId s | PileRef i \<Rightarrow> i < nextId s)"

definition no_lastOutline :: "state \<Rightarrow> bool" where
  "no_lastOutline s =
     (\<forall>r \<in> set (allObjects s).
        case r of StackRef i \<Rightarrow> \<not> lastOutline (stackHeap s i) | _ \<Rightarrow> True)"

definition press_ok :: "state \<Rightarrow> drag \<Rightarrow> ref \<Rightarrow> bool" where
  "press_ok s d a0 =
     (case a0 of
        CardRef c \<Rightarrow> True
      | StackRef i \<Rightarrow>
          (case specCardIndex d of
             None \<Rightarrow> False
           | Some k \<Rightarrow> 0 \<le> k \<and> k < int (length (items (stackHeap s i)))
               \<and> specCard d = js_nth (items (stackHeap s i)) k)
      | PileRef i \<Rightarrow> items (pileHeap s i) \<noteq> [])"

definition hover_ok :: "state \<Rightarrow> drag \<Rightarrow> bool" where
  "hover_ok s d =
     (case over d of
        None \<Rightarrow> True
      | Some ov \<Rightarrow>
          type_d d = TCard \<and>
          (case overIndex d of
             None \<Rightarrow> False
           | Some k \<Rightarrow> 0 < k \<and> js_nth (allObjects s) k = Some ov))"

definition session_ok :: "state \<Rightarrow> bool" where
  "session_ok s =
     (case dragging s of
        None \<Rightarrow> True
      | Some d \<Rightarrow>
          (case allObjects s of
             [] \<Rightarrow> False
           | a0 # rest \<Rightarrow>
               object d = a0 \<and> type_d d = constructor_name a0 \<and> hover_ok s d
               \<and> (draggedYet d \<or> press_ok s d a0)))"

definition inv :: "state \<Rightarrow> bool" where
  "inv s = (ownership s \<and> fresh_ids s \<and> no_lastOutline s \<and> session_ok s)"

inductive reachable :: "state \<Rightarrow> bool" where
  start: "dragging s = None \<Longrightarrow> ownership s \<Longrightarrow> fresh_ids s \<Longrightarrow> no_lastOutline s \<Longrightarrow> reachable s"
| down: "reachable s \<Longrightarrow> mousedown e s = Inr s' \<Longrightarrow> reachable s'"
| move: "reachable s \<Longrightarrow> mousemove e s = Inr s' \<Longrightarrow> reachable s'"
| up: "reachable s \<Longrightarrow> mouseup s = Inr s' \<Longrightarrow> reachable s'"

text \<open>What ownership and the session invariant read of a state.\<close>

definition struct :: "state \<Rightarrow> ref list \<times> drag option \<times> nat \<times> (nat \<Rightarrow> nat list) \<times> (nat \<Rightarrow> nat list)" where
  "struct s = (allObjects s, dragging s, nextId s, (\<lambda>i. items (stackHeap s i)),
               (\<lambda>i. items (pileHeap s i)))"

text \<open>A Stack whose \<open>lastOutline\<close> is set has a first member to draw the outline with.\<close>

definition outline_safe :: "ref list \<Rightarrow> state \<Rightarrow> bool" where
  "outline_safe objs s =
     (\<forall>r \<in> set objs.
        case r of
          StackRef i \<Rightarrow> lastOutline (stackHeap s i) \<longrightarrow> items (stackHeap s i) \<noteq> []
        | _ \<Rightarrow> True)"

subsection \<open>Projections used to state what a handler leaves alone\<close>

definition base :: "'a group_scheme \<Rightarrow> direction \<times> bool \<times> nat list \<times> real \<times> real" where
  "base g = (direction g, flipped g, items g, X_g g, Y_g g)"

definition face :: "Card \<Rightarrow> direction \<times> bool \<times> string \<times> string \<times> image" where
  "face c = (direction c, flipped c, num c, suit c, image_c c)"

definition place :: "Card \<Rightarrow> real \<times> real \<times> real" where
  "place c = (x_c c, y_c c, size_c c)"

text \<open>An object that a redraw in an idle state would not change.\<close>

fun settled :: "state \<Rightarrow> ref \<Rightarrow> bool" where
  "settled s (CardRef c) = (outline (cardHeap s c) = NoOutline)"
| "settled s (StackRef i) =
     (\<not> lastOutline (stackHeap s i)
      \<and> Stack_draw_forEach None (items (stackHeap s i)) 0 (outlineIndex (stackHeap s i))
          = outlineIndex (stackHeap s i))"
| "settled s (PileRef i) =
     (case items (pileHeap s i) of
        [] \<Rightarrow> True
      | c0 # _ \<Rightarrow> x_c (cardHeap s c0) = X_g (pileHeap s i) \<and> y_c (cardHeap s c0) = Y_g (pileHeap s i)
          \<and> size_c (cardHeap s c0) = 0.5 \<and> \<not> isOutline (pileHeap s i))"

text \<open>Every object of the heap has one of the four directions.\<close>

definition supported :: "state \<Rightarrow> bool" where
  "supported s =
     ((\<forall>i. direction (cardHeap s i) \<noteq> Unsupported)
      \<and> (\<forall>i. direction (stackHeap s i) \<noteq> Unsupported)
      \<and> (\<forall>i. direction (pileHeap s i) \<noteq> Unsupported))"




section \<open>An example scene\<close>

text \<open>
  A scene like the one the script builds: a Stack of four cards at (600, 200), a Pile at
  (300, 200) (of three cards here, not of a full deck) and four lone cards in a row. The
  cards of the groups were made by \<open>new Card(name)\<close> at (0, 0). Addresses that hold no
  object of the scene hold an empty group or a card at the origin.
\<close>

definition scene :: state where
  "scene =
     \<lparr>cardHeap = (\<lambda>i. mkCard 0 0)(7 := mkCard 77.5 10, 8 := mkCard 55 10, 9 := mkCard 32.5 10,
                                  10 := mkCard 10 10),
      stackHeap = (\<lambda>i. new_Stack 0 0 [])(0 := new_Stack 600 200 [0, 1, 2, 3]),
      pileHeap = (\<lambda>i. new_Pile 0 0 [])(0 := new_Pile 300 200 [4, 5, 6]),
      nextId = 1,
      allObjects = [StackRef 0, PileRef 0, CardRef 7, CardRef 8, CardRef 9, CardRef 10],
      dragging = None,
      lastDragged = None\<rparr>"

text \<open>A press of the left button at \<open>(px, py)\<close> at time \<open>t\<close>, and a move by \<open>(mx, my)\<close>.\<close>

definition press :: "real \<Rightarrow> real \<Rightarrow> real \<Rightarrow> MouseEvent" where
  "press px py t =
     \<lparr>clientX = px, clientY = py, button = 0, timeStamp = t, movementX = 0, movementY = 0\<rparr>"

definition move_by :: "real \<Rightarrow> real \<Rightarrow> real \<Rightarrow> real \<Rightarrow> real \<Rightarrow> MouseEvent" where
  "move_by px py t mx my =
     \<lparr>clientX = px, clientY = py, button = 0, timeStamp = t, movementX = mx, movementY = my\<rparr>"

text \<open>The scene after a press on the second card of the Stack.\<close>

definition pressed_drag :: drag where
  "pressed_drag =
     \<lparr>type_d = TStack, object = StackRef 0, x_d = 630, y_d = 210, timeStamp_d = 1000,
      doubleClick = False, specCard = Some 1, specCardIndex = Some 1, draggedYet = False,
      index_d = 0, overIndex = None, over = None\<rparr>"

definition scene_pressed :: state where
  "scene_pressed =
     scene\<lparr>cardHeap := (cardHeap scene)(4 := mkCard 300 200), dragging := Some pressed_drag\<rparr>"

text \<open>
  A second scene: a Stack of two cards and a Pile of two cards, and the states after a press on
  the first card of the Stack and after a press on the Pile.
\<close>

definition pairs :: state where
  "pairs =
     \<lparr>cardHeap = (\<lambda>i. mkCard 0 0),
      stackHeap = (\<lambda>i. new_Stack 0 0 [])(0 := new_Stack 600 200 [0, 1]),
      pileHeap = (\<lambda>i. new_Pile 0 0 [])(0 := new_Pile 300 200 [2, 3]),
      nextId = 1,
      allObjects = [StackRef 0, PileRef 0],
      dragging = None,
      lastDragged = None\<rparr>"

definition pairs_stack_drag :: drag where
  "pairs_stack_drag =
     \<lparr>type_d = TStack, object = StackRef 0, x_d = 610, y_d = 210, timeStamp_d = 1000,
      doubleClick = False, specCard = Some 0, specCardIndex = Some 0, draggedYet = False,
      index_d = 0, overIndex = None, over = None\<rparr>"

definition pairs_stack_pressed :: state where
  "pairs_stack_pressed =
     pairs\<lparr>cardHeap := (cardHeap pairs)(2 := mkCard 300 200), dragging := Some pairs_stack_drag\<rparr>"

definition pairs_pile_drag :: drag where
  "pairs_pile_drag =
     \<lparr>type_d = TPile, object = PileRef 0, x_d = 310, y_d = 210, timeStamp_d = 1000,
      doubleClick = False, specCard = None, specCardIndex = None, draggedYet = False,
      index_d = 1, overIndex = None, over = None\<rparr>"

definition pairs_pile_pressed :: state where
  "pairs_pile_pressed =
     pairs\<lparr>cardHeap := (cardHeap pairs)(2 := mkCard 300 200),
           allObjects := [PileRef 0, StackRef 0], dragging := Some pairs_pile_drag\<rparr>"


text \<open>The first scene after a redraw: the top card of the Pile is at the Pile's position.\<close>

definition scene_drawn :: state where
  "scene_drawn = scene\<lparr>cardHeap := (cardHeap scene)(4 := mkCard 300 200)\<rparr>"

text \<open>The first scene after \<open>card.direction = v\<close> on a lone card, for a \<open>v\<close> that is none of the four.\<close>

definition scene_turned :: state where
  "scene_turned = set_direction (CardRef 7) Unsupported scene"

text \<open>
  The first scene after a press on the lone card at (77.5, 10), and after a move that brings
  that card to (85, 10) with the pointer over the lone card at (55, 10).
\<close>

definition card_drag :: drag where
  "card_drag =
     \<lparr>type_d = TCard, object = CardRef 7, x_d = 80, y_d = 20, timeStamp_d = 1000,
      doubleClick = False, specCard = None, specCardIndex = None, draggedYet = False,
      index_d = 2, overIndex = None, over = None\<rparr>"

definition scene_card_pressed :: state where
  "scene_card_pressed =
     scene\<lparr>cardHeap := (cardHeap scene)(4 := mkCard 300 200),
           allObjects := [CardRef 7, StackRef 0, PileRef 0, CardRef 8, CardRef 9, CardRef 10],
           dragging := Some card_drag\<rparr>"

definition hover_drag :: drag where
  "hover_drag =
     card_drag\<lparr>x_d := 85, y_d := 20, draggedYet := True, overIndex := Some 3,
               over := Some (CardRef 8)\<rparr>"

definition scene_hover :: state where
  "scene_hover =
     scene_card_pressed\<lparr>cardHeap := (cardHeap scene_card_pressed)(7 := mkCard 85 10),
                        dragging := Some hover_drag\<rparr>"

text \<open>
  The first scene after the press on the Stack and a move that takes the pressed card out, and
  after a release there, over the Stack, which puts the card back.
\<close>

definition extracted_drag :: drag where
  "extracted_drag =
     \<lparr>type_d = TCard, object = CardRef 1, x_d = 630, y_d = 210, timeStamp_d = 1010,
      doubleClick = False, specCard = None, specCardIndex = None, draggedYet = True,
      index_d = 0, overIndex = Some 1, over = Some (StackRef 0)\<rparr>"

definition scene_extracted :: state where
  "scene_extracted =
     scene_pressed\<lparr>cardHeap := (cardHeap scene_pressed)(1 := mkCard 622.5 200),
                    stackHeap := (stackHeap scene_pressed)(0 := new_Stack 600 200 [0, 2, 3]),
                    allObjects := [CardRef 1, StackRef 0, PileRef 0, CardRef 7, CardRef 8,
                                   CardRef 9, CardRef 10],
                    dragging := Some extracted_drag\<rparr>"

definition scene_reinserted :: state where
  "scene_reinserted =
     scene_pressed\<lparr>cardHeap := (cardHeap scene_pressed)(1 := mkCard 622.5 200),
                    dragging := None, lastDragged := Some extracted_drag\<rparr>"

text \<open>
  The second scene after the press on its Stack and a move, which leaves the Stack with one
  card; and the first scene after the release of the lone card over the other lone card.
\<close>

definition split_drag :: drag where
  "split_drag =
     \<lparr>type_d = TCard, object = CardRef 0, x_d = 615, y_d = 212, timeStamp_d = 1010,
      doubleClick = False, specCard = None, specCardIndex = None, draggedYet = True,
      index_d = 0, overIndex = Some 1, over = Some (CardRef 1)\<rparr>"

definition pairs_split :: state where
  "pairs_split =
     pairs_stack_pressed\<lparr>cardHeap := (cardHeap pairs_stack_pressed)(0 := mkCard 605 202,
                                                                      1 := mkCard 600 200),
                         stackHeap := (stackHeap pairs_stack_pressed)(0 := new_Stack 600 200 [1]),
                         allObjects := [CardRef 0, CardRef 1, PileRef 0],
                         dragging := Some split_drag\<rparr>"

definition scene_merged :: state where
  "scene_merged =
     scene_hover\<lparr>stackHeap := (stackHeap scene_hover)(1 := new_Stack 55 10 [8, 7]),
                  nextId := 2,
                  allObjects := [StackRef 1, StackRef 0, PileRef 0, CardRef 9, CardRef 10],
                  dragging := None, lastDragged := Some hover_drag\<rparr>"

section \<open>Hit testing\<close>

lemma Card_isIn_spec:
  "direction c \<noteq> Unsupported \<Longrightarrow>
   Card_isIn c px py = Some (spec_inside (direction c) (x_c c) (y_c c) (Card_width c) (Card_height c) px py)"
  by (cases "direction c")
     (auto simp: Card_isIn_def Card_cornerX_def Card_cornerY_def num_le_def num_ge_def
        ascending_def descending_def)

lemma Stack_isIn_spec:
  "direction st \<noteq> Unsupported \<Longrightarrow>
   (Stack_isIn h st px py = Some True) =
     (\<exists>w hh. Stack_width h st = Some w \<and> Stack_height h st = Some hh \<and>
        spec_inside (direction st) (X_g st) (Y_g st) w hh px py)"
  by (cases "direction st"; cases "items st")
     (auto simp: Stack_isIn_def Stack_cornerX_def Stack_cornerY_def Stack_width_def Stack_height_def
        num_le_def num_ge_def num_add_def num_sub_def ascending_def descending_def)

lemma Pile_isIn_spec:
  "direction p \<noteq> Unsupported \<Longrightarrow>
   (Pile_isIn h p px py = Some True) =
     (\<exists>w hh. Pile_width h p = Some w \<and> Pile_height h p = Some hh \<and>
        spec_inside (direction p) (X_g p) (Y_g p) w hh px py)"
  by (cases "direction p"; cases "items p")
     (auto simp: Pile_isIn_def Pile_cornerX_def Pile_cornerY_def Pile_width_def Pile_height_def
        num_le_def num_ge_def num_add_def num_sub_def ascending_def descending_def)

text \<open>
  C4. For each of the four quarter turns and every point, \<open>isIn\<close> of a Card is the region
  test between the anchor and the opposite corner given by the corner formulas, with
  the Card's width and height; \<open>isIn\<close> of a Stack and of a Pile is true exactly when the
  group has a width and a height (it is not empty) and the point passes the same test
  with them, from the group's anchor.
\<close>

theorem isIn_agrees_with_corners:
  "(direction c \<noteq> Unsupported \<longrightarrow>
      Card_isIn c px py = Some (spec_inside (direction c) (x_c c) (y_c c) (Card_width c) (Card_height c) px py))
   \<and> (direction st \<noteq> Unsupported \<longrightarrow>
      (Stack_isIn h st px py = Some True) =
        (\<exists>w hh. Stack_width h st = Some w \<and> Stack_height h st = Some hh \<and>
           spec_inside (direction st) (X_g st) (Y_g st) w hh px py))
   \<and> (direction p \<noteq> Unsupported \<longrightarrow>
      (Pile_isIn h p px py = Some True) =
        (\<exists>w hh. Pile_width h p = Some w \<and> Pile_height h p = Some hh \<and>
           spec_inside (direction p) (X_g p) (Y_g p) w hh px py))"
  using Card_isIn_spec Stack_isIn_spec Pile_isIn_spec by blast

theorem isIn_agrees_with_corners_witness:
  "direction ((mkCard 10 10)\<lparr>direction := Clockwise90\<rparr>) \<noteq> Unsupported
   \<and> Card_isIn ((mkCard 10 10)\<lparr>direction := Clockwise90\<rparr>) (- 100) 90 = Some True
   \<and> direction ((new_Stack 600 200 [0, 1, 2])\<lparr>direction := Turned180\<rparr>) \<noteq> Unsupported
   \<and> Stack_isIn (\<lambda>_. mkCard 0 0) ((new_Stack 600 200 [0, 1, 2])\<lparr>direction := Turned180\<rparr>) (- 100) 90 = Some False
   \<and> direction ((new_Pile 300 200 [0, 1])\<lparr>direction := Clockwise270\<rparr>) \<noteq> Unsupported
   \<and> Pile_isIn (\<lambda>_. mkCard 0 0) ((new_Pile 300 200 [0, 1])\<lparr>direction := Clockwise270\<rparr>) (- 100) 90 = Some False"
  using isIn_agrees_with_corners [where c = "(mkCard 10 10)\<lparr>direction := Clockwise90\<rparr>"
      and px = "- 100" and py = 90
      and st = "(new_Stack 600 200 [0, 1, 2])\<lparr>direction := Turned180\<rparr>" and h = "\<lambda>_. mkCard 0 0"
      and p = "(new_Pile 300 200 [0, 1])\<lparr>direction := Clockwise270\<rparr>"]
  by (simp add: mkCard_def img_def new_Stack_def new_Pile_def Card_width_def Card_height_def
      Stack_width_def Stack_height_def Pile_width_def Pile_height_def ascending_def descending_def
      Stack_isIn_def Stack_cornerX_def Stack_cornerY_def
      Pile_isIn_def Pile_cornerX_def Pile_cornerY_def num_add_def num_sub_def num_le_def num_ge_def)

text \<open>
  C7. For each of the four quarter turns, \<open>getSpecCard\<close> asked for an index computes the
  floor of the distance from the anchor along the fan axis divided by 22.5; without
  scrubbing it returns that number as it is, and with scrubbing it returns \<open>length - 1\<close>
  for every index that is at least the length.
\<close>

theorem getSpecCard_index:
  "direction st \<noteq> Unsupported \<longrightarrow>
     getSpecCard h st px py True False False = RetIndex (Some (spec_fan_index st px py))
     \<and> getSpecCard h st px py True True False =
         RetIndex (Some (if spec_fan_index st px py \<ge> int (length (items st))
                         then int (length (items st)) - 1 else spec_fan_index st px py))"
  by (cases "direction st")
     (auto simp: getSpecCard_def Stack_index_def scrubbed_def spec_fan_index_def)

theorem getSpecCard_index_witness:
  "direction ((new_Stack 600 200 [0, 1, 2])\<lparr>direction := Clockwise90\<rparr>) \<noteq> Unsupported
   \<and> getSpecCard (\<lambda>_. mkCard 0 0) ((new_Stack 600 200 [0, 1, 2])\<lparr>direction := Clockwise90\<rparr>) 590 300 True False False
       = RetIndex (Some 4)
   \<and> getSpecCard (\<lambda>_. mkCard 0 0) ((new_Stack 600 200 [0, 1, 2])\<lparr>direction := Clockwise90\<rparr>) 590 300 True True False
       = RetIndex (Some 2)"
  using getSpecCard_index [of "(new_Stack 600 200 [0, 1, 2])\<lparr>direction := Clockwise90\<rparr>" "\<lambda>_. mkCard 0 0" 590 300]
  by (simp add: new_Stack_def spec_fan_index_def)

lemma structD:
  assumes "struct s' = struct s"
  shows "allObjects s' = allObjects s" "dragging s' = dragging s" "nextId s' = nextId s"
    "items (stackHeap s' i) = items (stackHeap s i)"
    "items (pileHeap s' i) = items (pileHeap s i)"
  using assms unfolding struct_def by (simp_all add: fun_eq_iff)

lemma structI:
  assumes "allObjects s' = allObjects s" "dragging s' = dragging s" "nextId s' = nextId s"
    "\<And>i. items (stackHeap s' i) = items (stackHeap s i)"
    "\<And>i. items (pileHeap s' i) = items (pileHeap s i)"
  shows "struct s' = struct s"
  using assms unfolding struct_def by (simp add: fun_eq_iff)

lemma members_struct:
  assumes "struct s' = struct s"
  shows "members s' r = members s r"
  by (cases r) (simp_all add: structD[OF assms])

lemma allCards_struct:
  assumes "struct s' = struct s"
  shows "allCards s' = allCards s"
  by (simp add: allCards_def members_struct[OF assms] structD(1)[OF assms] cong: map_cong)

lemma ownership_struct:
  assumes "struct s' = struct s"
  shows "ownership s' = ownership s"
  by (simp add: ownership_def allCards_struct[OF assms] structD(1)[OF assms])

lemma fresh_ids_struct:
  assumes "struct s' = struct s"
  shows "fresh_ids s' = fresh_ids s"
  by (simp add: fresh_ids_def structD(1,3)[OF assms] cong: ref.case_cong)

lemma press_ok_struct:
  assumes "struct s' = struct s"
  shows "press_ok s' d a = press_ok s d a"
  by (simp add: press_ok_def structD(4,5)[OF assms] cong: ref.case_cong option.case_cong)

lemma hover_ok_struct:
  assumes "struct s' = struct s"
  shows "hover_ok s' d = hover_ok s d"
  by (simp add: hover_ok_def structD(1)[OF assms] cong: option.case_cong)

lemma session_ok_struct:
  assumes "struct s' = struct s"
  shows "session_ok s' = session_ok s"
  by (simp add: session_ok_def structD(1,2)[OF assms] press_ok_struct[OF assms]
      hover_ok_struct[OF assms] cong: option.case_cong list.case_cong)

lemma no_lastOutline_struct:
  assumes "struct s' = struct s" "\<And>i. lastOutline (stackHeap s' i) = lastOutline (stackHeap s i)"
  shows "no_lastOutline s' = no_lastOutline s"
  by (simp add: no_lastOutline_def structD(1)[OF assms(1)] assms(2) cong: ref.case_cong)

lemma inv_struct:
  assumes "struct s' = struct s" "\<And>i. lastOutline (stackHeap s' i) = lastOutline (stackHeap s i)"
  shows "inv s' = inv s"
  by (simp add: inv_def ownership_struct[OF assms(1)] fresh_ids_struct[OF assms(1)]
      session_ok_struct[OF assms(1)] no_lastOutline_struct[OF assms])

lemma struct_set_flipped [simp]: "struct (set_flipped r v s) = struct s"
  by (cases r) (simp_all add: struct_def fun_eq_iff)

lemma struct_set_direction [simp]: "struct (set_direction r v s) = struct s"
  by (cases r) (simp_all add: struct_def fun_eq_iff)

lemma struct_set_x [simp]: "struct (set_x r v s) = struct s"
  by (cases r) (simp_all add: struct_def fun_eq_iff)

lemma struct_set_y [simp]: "struct (set_y r v s) = struct s"
  by (cases r) (simp_all add: struct_def fun_eq_iff)

lemma lastOutline_set_flipped [simp]:
  "lastOutline (stackHeap (set_flipped r v s) i) = lastOutline (stackHeap s i)"
  by (cases r) simp_all

lemma lastOutline_set_direction [simp]:
  "lastOutline (stackHeap (set_direction r v s) i) = lastOutline (stackHeap s i)"
  by (cases r) simp_all

lemma lastOutline_set_x [simp]:
  "lastOutline (stackHeap (set_x r v s) i) = lastOutline (stackHeap s i)"
  by (cases r) simp_all

lemma lastOutline_set_y [simp]:
  "lastOutline (stackHeap (set_y r v s) i) = lastOutline (stackHeap s i)"
  by (cases r) simp_all

lemma lastOutline_set_items [simp]:
  "lastOutline (stackHeap (set_items r v s) i) = lastOutline (stackHeap s i)"
  by (cases r) simp_all

subsection \<open>Redrawing\<close>

lemma draw_struct: "draw a s = Inr s' \<Longrightarrow> struct s' = struct s"
  by (cases a)
     (auto simp: struct_def fun_eq_iff Card_draw_def Stack_draw_def Pile_draw_def Let_def
        split: if_splits list.splits)

lemma draw_each_struct: "draw_each objs s = Inr s' \<Longrightarrow> struct s' = struct s"
proof (induction objs arbitrary: s)
  case Nil
  then show ?case by simp
next
  case (Cons a objs)
  then obtain s1 where 1: "draw a s = Inr s1" and 2: "draw_each objs s1 = Inr s'"
    by (auto split: sum.splits)
  from Cons.IH[OF 2] draw_struct[OF 1] show ?case by simp
qed

lemma tick_struct: "tick s = Inr s' \<Longrightarrow> struct s' = struct s"
  unfolding tick_def by (rule draw_each_struct)

lemma draw_lastOutline:
  "draw a s = Inr s' \<Longrightarrow>
   lastOutline (stackHeap s' i) = (if a = StackRef i then False else lastOutline (stackHeap s i))"
  by (cases a)
     (auto simp: Card_draw_def Stack_draw_def Pile_draw_def Let_def split: if_splits list.splits)

lemma draw_each_lastOutline:
  "draw_each objs s = Inr s' \<Longrightarrow>
   lastOutline (stackHeap s' i) = (if StackRef i \<in> set objs then False else lastOutline (stackHeap s i))"
proof (induction objs arbitrary: s)
  case Nil
  then show ?case by simp
next
  case (Cons a objs)
  then obtain s1 where 1: "draw a s = Inr s1" and 2: "draw_each objs s1 = Inr s'"
    by (auto split: sum.splits)
  from Cons.IH[OF 2] draw_lastOutline[OF 1, of i] show ?case by auto
qed

lemma draw_ok:
  "outline_safe [a] s \<Longrightarrow> \<exists>s'. draw a s = Inr s'"
  by (cases a) (auto simp: outline_safe_def Stack_draw_def Let_def)

lemma outline_safe_draw:
  assumes "draw a s = Inr s1" "outline_safe objs s"
  shows "outline_safe objs s1"
  unfolding outline_safe_def
proof
  fix r assume r: "r \<in> set objs"
  show "case r of StackRef i \<Rightarrow> lastOutline (stackHeap s1 i) \<longrightarrow> items (stackHeap s1 i) \<noteq> [] | _ \<Rightarrow> True"
  proof (cases r)
    case (StackRef i)
    with r assms(2) have "lastOutline (stackHeap s i) \<longrightarrow> items (stackHeap s i) \<noteq> []"
      by (auto simp: outline_safe_def)
    with draw_lastOutline[OF assms(1), of i] structD(4)[OF draw_struct[OF assms(1)], of i] StackRef
    show ?thesis by (auto split: if_splits)
  qed simp_all
qed

lemma draw_each_ok:
  "outline_safe objs s \<Longrightarrow> \<exists>s'. draw_each objs s = Inr s'"
proof (induction objs arbitrary: s)
  case Nil
  then show ?case by simp
next
  case (Cons a objs)
  from Cons.prems have "outline_safe [a] s" and rest: "outline_safe objs s"
    by (auto simp: outline_safe_def)
  then obtain s1 where 1: "draw a s = Inr s1"
    using draw_ok by blast
  from Cons.IH[OF outline_safe_draw[OF 1 rest]] 1 show ?case by simp
qed

lemma tick_ok:
  assumes "outline_safe (allObjects s) s"
  shows "\<exists>s'. tick s = Inr s'"
proof -
  from assms have "outline_safe (rev (allObjects s)) s"
    by (simp add: outline_safe_def)
  then show ?thesis unfolding tick_def by (rule draw_each_ok)
qed

lemma tick_no_lastOutline:
  assumes "tick s = Inr s'"
  shows "no_lastOutline s'"
proof -
  have "\<not> lastOutline (stackHeap s' i)" if "StackRef i \<in> set (allObjects s')" for i
    using draw_each_lastOutline[OF assms[unfolded tick_def], of i] that
      structD(1)[OF tick_struct[OF assms]] by simp
  then show ?thesis
    by (auto simp: no_lastOutline_def split: ref.splits)
qed

lemma no_lastOutline_safe: "no_lastOutline s \<Longrightarrow> outline_safe (allObjects s) s"
  by (auto simp: no_lastOutline_def outline_safe_def split: ref.splits)

text \<open>A redraw never fails on a safe state and re-establishes the invariant.\<close>

lemma tick_inv:
  assumes "ownership s" "fresh_ids s" "session_ok s" "outline_safe (allObjects s) s"
  shows "\<exists>s'. tick s = Inr s' \<and> inv s' \<and> struct s' = struct s"
proof -
  from tick_ok[OF assms(4)] obtain s' where t: "tick s = Inr s'" by blast
  note st = tick_struct[OF t]
  from assms tick_no_lastOutline[OF t] have "inv s'"
    by (simp add: inv_def ownership_struct[OF st] fresh_ids_struct[OF st] session_ok_struct[OF st])
  with t st show ?thesis by blast
qed

subsection \<open>Array methods\<close>

lemma findIndex_cases:
  "findIndex P xs = - 1 \<or>
   (\<exists>k. findIndex P xs = int k \<and> k < length xs \<and> P (xs ! k) \<and> (\<forall>j<k. \<not> P (xs ! j)))"
proof (induction xs)
  case Nil
  then show ?case by simp
next
  case (Cons a xs)
  show ?case
  proof (cases "P a")
    case True
    then have "findIndex P (a # xs) = int 0 \<and> 0 < length (a # xs) \<and> P ((a # xs) ! 0) \<and> (\<forall>j<0. \<not> P ((a # xs) ! j))"
      by simp
    then show ?thesis by blast
  next
    case False
    from Cons.IH show ?thesis
    proof
      assume "findIndex P xs = - 1"
      with False show ?thesis by simp
    next
      assume "\<exists>k. findIndex P xs = int k \<and> k < length xs \<and> P (xs ! k) \<and> (\<forall>j<k. \<not> P (xs ! j))"
      then obtain k where k: "findIndex P xs = int k" "k < length xs" "P (xs ! k)" "\<forall>j<k. \<not> P (xs ! j)"
        by blast
      have "\<forall>j<Suc k. \<not> P ((a # xs) ! j)"
        using False k(4) by (auto simp: nth_Cons split: nat.splits)
      with k False have "findIndex P (a # xs) = int (Suc k) \<and> Suc k < length (a # xs) \<and> P ((a # xs) ! Suc k)
          \<and> (\<forall>j<Suc k. \<not> P ((a # xs) ! j))"
        by (simp add: Let_def)
      then show ?thesis by blast
    qed
  qed
qed

lemma js_nth_Some: "js_nth xs i = Some a \<longleftrightarrow> (0 \<le> i \<and> i < int (length xs) \<and> xs ! nat i = a)"
  by (auto simp: js_nth_def)

lemma js_nth_int [simp]: "js_nth xs (int k) = (if k < length xs then Some (xs ! k) else None)"
  by (simp add: js_nth_def)

lemma js_nth_minus1 [simp]: "js_nth xs (- 1) = None"
  by (simp add: js_nth_def)

lemma js_nth_findIndex:
  assumes "js_nth xs (findIndex P xs) = Some a"
  shows "\<exists>k. findIndex P xs = int k \<and> k < length xs \<and> xs ! k = a \<and> P a \<and> (\<forall>j<k. \<not> P (xs ! j))"
  using findIndex_cases[of P xs] assms by (auto split: if_splits)

lemma findIndex_ge: "- 1 \<le> findIndex P xs"
  by (induction xs) (auto simp: Let_def)

lemma findIndex_none: "findIndex P xs = - 1 \<longleftrightarrow> (\<forall>x \<in> set xs. \<not> P x)"
proof (induction xs)
  case Nil
  then show ?case by simp
next
  case (Cons a xs)
  have "findIndex P xs + 1 \<noteq> - 1"
    using findIndex_ge[of P xs] by linarith
  with Cons show ?case by (auto simp: Let_def)
qed

lemma findIndex_distinct:
  assumes "distinct xs" "j < length xs"
  shows "findIndex (\<lambda>b. b = xs ! j) xs = int j"
proof -
  have "findIndex (\<lambda>b. b = xs ! j) xs \<noteq> - 1"
    using assms(2) by (auto simp: findIndex_none)
  with findIndex_cases[of "\<lambda>b. b = xs ! j" xs]
  obtain k where k: "findIndex (\<lambda>b. b = xs ! j) xs = int k" "k < length xs" "xs ! k = xs ! j"
    by blast
  with assms have "k = j" by (simp add: nth_eq_iff_index_eq)
  with k show ?thesis by simp
qed

subsection \<open>The cards of a scene as a multiset\<close>

lemma mset_concat_map:
  "mset (concat (map f xs)) = (\<Sum>x\<in>#mset xs. mset (f x))"
  by (induction xs) simp_all

lemma mset_concat_map_cong:
  assumes "mset xs = mset ys" "\<And>x. x \<in> set xs \<Longrightarrow> mset (f x) = mset (g x)"
  shows "mset (concat (map f xs)) = mset (concat (map g ys))"
proof -
  have "(\<Sum>x\<in>#mset xs. mset (f x)) = (\<Sum>x\<in>#mset xs. mset (g x))"
    using assms(2) by (intro arg_cong[where f = sum_mset] image_mset_cong) simp
  with assms(1) show ?thesis by (simp add: mset_concat_map)
qed

lemma allCards_mset_cong:
  assumes "mset (allObjects s') = mset (allObjects s)"
    "\<And>r. r \<in> set (allObjects s) \<Longrightarrow> mset (members s' r) = mset (members s r)"
  shows "mset (allCards s') = mset (allCards s)"
proof -
  have "mset (concat (map (members s) (allObjects s))) = mset (concat (map (members s') (allObjects s')))"
    by (rule mset_concat_map_cong) (simp_all add: assms)
  then show ?thesis by (simp add: allCards_def)
qed

lemma ownership_mset:
  assumes "ownership s" "mset (allObjects s') = mset (allObjects s)"
    "mset (allCards s') = mset (allCards s)"
  shows "ownership s'"
  using assms mset_eq_imp_distinct_iff[OF assms(2)] mset_eq_imp_distinct_iff[OF assms(3)]
  by (simp add: ownership_def)

lemma members_subset: "r \<in> set (allObjects s) \<Longrightarrow> set (members s r) \<subseteq> set (allCards s)"
  by (auto simp: allCards_def)

lemma ownership_members_distinct:
  assumes "ownership s" "r \<in> set (allObjects s)"
  shows "distinct (members s r)"
proof -
  from assms(2) obtain pre post where "allObjects s = pre @ r # post"
    by (auto dest: split_list)
  with assms(1) show ?thesis by (simp add: ownership_def allCards_def)
qed

subsection \<open>Pressing the button\<close>

lemma flip_on_press_frame [simp]:
  "allObjects (flip_on_press b r s) = allObjects s"
  "dragging (flip_on_press b r s) = dragging s"
  "lastDragged (flip_on_press b r s) = lastDragged s"
  "nextId (flip_on_press b r s) = nextId s"
  "lastOutline (stackHeap (flip_on_press b r s) i) = lastOutline (stackHeap s i)"
  by (cases r; simp add: flip_on_press_def reverse_group_def)+

lemma flip_on_press_stack [simp]:
  "direction (stackHeap (flip_on_press b r s) i) = direction (stackHeap s i)"
  "X_g (stackHeap (flip_on_press b r s) i) = X_g (stackHeap s i)"
  "Y_g (stackHeap (flip_on_press b r s) i) = Y_g (stackHeap s i)"
  by (cases r; simp add: flip_on_press_def reverse_group_def)+

lemma flip_on_press_members:
  "members (flip_on_press b r s) a = members s a \<or> members (flip_on_press b r s) a = rev (members s a)"
  by (cases r; cases a; simp add: flip_on_press_def reverse_group_def)

lemma flip_on_press_mset [simp]: "mset (members (flip_on_press b r s) a) = mset (members s a)"
  using flip_on_press_members[of b r s a] by auto

lemma flip_on_press_length [simp]: "length (members (flip_on_press b r s) a) = length (members s a)"
  using flip_on_press_members[of b r s a] by auto

lemma flip_on_press_distinct [simp]: "distinct (members (flip_on_press b r s) a) = distinct (members s a)"
  using flip_on_press_members[of b r s a] by auto

lemma Stack_index_cong:
  "direction st' = direction st \<Longrightarrow> X_g st' = X_g st \<Longrightarrow> Y_g st' = Y_g st \<Longrightarrow>
   Stack_index st' px py = Stack_index st px py"
  by (simp add: Stack_index_def cong: direction.case_cong)

lemma Stack_isIn_nonempty:
  assumes "Stack_isIn h st px py = Some True"
  shows "items st \<noteq> []"
proof
  assume "items st = []"
  then have "Stack_cornerX h st = None"
    by (cases "direction st") (simp_all add: Stack_cornerX_def Stack_width_def Stack_height_def num_add_def num_sub_def)
  with assms show False
    by (cases "direction st") (simp_all add: Stack_isIn_def num_le_def num_ge_def)
qed

lemma Stack_isIn_index:
  assumes "Stack_isIn h st px py = Some True"
  shows "\<exists>k. Stack_index st px py = Some k \<and> 0 \<le> k"
proof (cases "direction st")
  case Forward
  with assms have "X_g st \<le> px" by (simp add: Stack_isIn_def)
  then have "0 \<le> (px - X_g st) / 22.5" by simp
  with Forward show ?thesis by (simp add: Stack_index_def)
next
  case Clockwise90
  with assms have "Y_g st \<le> py" by (simp add: Stack_isIn_def)
  then have "0 \<le> (py - Y_g st) / 22.5" by simp
  with Clockwise90 show ?thesis by (simp add: Stack_index_def)
next
  case Turned180
  with assms have "px \<le> X_g st" by (simp add: Stack_isIn_def)
  then have "0 \<le> (X_g st - px) / 22.5" by simp
  with Turned180 show ?thesis by (simp add: Stack_index_def)
next
  case Clockwise270
  with assms have "py \<le> Y_g st" by (simp add: Stack_isIn_def)
  then have "0 \<le> (Y_g st - py) / 22.5" by simp
  with Clockwise270 show ?thesis by (simp add: Stack_index_def)
next
  case Unsupported
  with assms show ?thesis by (simp add: Stack_isIn_def)
qed

lemma Stack_isIn_hit:
  assumes "Stack_isIn h st px py = Some True"
  shows "items st \<noteq> [] \<and> (\<exists>k. Stack_index st px py = Some k \<and> 0 \<le> k)"
  using Stack_isIn_nonempty[OF assms] Stack_isIn_index[OF assms] by simp

lemma Pile_isIn_hit:
  assumes "Pile_isIn h p px py = Some True"
  shows "items p \<noteq> []"
proof
  assume "items p = []"
  then have "Pile_cornerX h p = None"
    by (cases "direction p") (simp_all add: Pile_cornerX_def Pile_width_def Pile_height_def num_add_def num_sub_def)
  with assms show False
    by (cases "direction p") (simp_all add: Pile_isIn_def num_le_def num_ge_def)
qed

lemma js_nth_0 [simp]: "js_nth xs 0 = (case xs of [] \<Rightarrow> None | a # _ \<Rightarrow> Some a)"
  by (cases xs) (simp_all add: js_nth_def)

lemma js_nth_1 [simp]: "js_nth (a # xs) 1 = (case xs of [] \<Rightarrow> None | b # _ \<Rightarrow> Some b)"
  by (cases xs) (simp_all add: js_nth_def)

lemma raiseToTop_hd:
  assumes "obj \<in> set objs"
  shows "\<exists>rest. raiseToTop obj objs = obj # rest"
  using assms by (cases objs) (auto simp: raiseToTop_def)

lemma raiseToTop_mset:
  assumes "obj \<in> set objs"
  shows "mset (raiseToTop obj objs) = mset objs"
  using assms by (simp add: raiseToTop_def)

text \<open>What mousedown records about a Stack holds of the Stack.\<close>

lemma pressed_ok:
  assumes hit: "Stack_isIn h (stackHeap s i) px py = Some True"
    and dist: "distinct (items (stackHeap s1 i))"
    and same: "direction (stackHeap s1 i) = direction (stackHeap s i)"
      "X_g (stackHeap s1 i) = X_g (stackHeap s i)" "Y_g (stackHeap s1 i) = Y_g (stackHeap s i)"
      "length (items (stackHeap s1 i)) = length (items (stackHeap s i))"
  shows "\<exists>n. pressedCardIndex s1 (StackRef i) px py = Some n \<and> 0 \<le> n
             \<and> n < int (length (items (stackHeap s1 i)))
             \<and> pressedCard s1 (StackRef i) px py = js_nth (items (stackHeap s1 i)) n"
proof -
  let ?its = "items (stackHeap s1 i)"
  from Stack_isIn_hit[OF hit] obtain k where ne: "items (stackHeap s i) \<noteq> []"
    and k: "Stack_index (stackHeap s i) px py = Some k" "0 \<le> k"
    by blast
  have idx: "Stack_index (stackHeap s1 i) px py = Some k"
    using Stack_index_cong[OF same(1-3), of px py] k by simp
  define n where "n = scrubbed (Some k) (length ?its)"
  from ne same(4) have len: "0 < length ?its" by simp
  with k(2) have n: "0 \<le> n" "n < int (length ?its)"
    by (auto simp: n_def scrubbed_def)
  have pc: "pressedCard s1 (StackRef i) px py = js_nth ?its n"
    by (simp add: pressedCard_def getSpecCard_def idx n_def)
  from n have "js_nth ?its n = Some (?its ! nat n)"
    by (simp add: js_nth_def)
  moreover have "findIndex (\<lambda>b. b = ?its ! nat n) ?its = int (nat n)"
    using findIndex_distinct[OF dist, of "nat n"] n by simp
  ultimately have "pressedCardIndex s1 (StackRef i) px py = Some n"
    using n by (simp add: pressedCardIndex_def pc indexOf_def)
  with n pc show ?thesis by blast
qed

lemma mousedown_inv:
  assumes "inv s"
  shows "\<exists>s'. mousedown e s = Inr s' \<and> inv s' \<and> mset (allCards s') = mset (allCards s)"
proof (cases "dragging s")
  case (Some d)
  with assms show ?thesis by (simp add: mousedown_def)
next
  case None
  let ?P = "\<lambda>a. isIn s a (clientX e) (clientY e) = Some True"
  let ?k = "findIndex ?P (allObjects s)"
  show ?thesis
  proof (cases "js_nth (allObjects s) ?k")
    case None
    with \<open>dragging s = None\<close> assms show ?thesis by (simp add: mousedown_def Let_def)
  next
    case (Some obj)
    from js_nth_findIndex[OF Some] have mem: "obj \<in> set (allObjects s)" and hit: "?P obj"
      by auto
    define s1 where "s1 = flip_on_press (button e) obj s"
    define d where "d = \<lparr>type_d = constructor_name obj, object = obj, x_d = clientX e,
        y_d = clientY e, timeStamp_d = timeStamp e,
        doubleClick = isDoubleClick (lastDragged s1) (timeStamp e) obj,
        specCard = pressedCard s1 obj (clientX e) (clientY e),
        specCardIndex = pressedCardIndex s1 obj (clientX e) (clientY e),
        draggedYet = False, index_d = ?k, overIndex = None, over = None\<rparr>"
    define s3 where "s3 = s1\<lparr>dragging := Some d, allObjects := raiseToTop obj (allObjects s1)\<rparr>"
    have md: "mousedown e s = tick s3"
      using \<open>dragging s = None\<close> Some
      by (simp add: mousedown_def Let_def s3_def d_def s1_def)
    from assms have own: "ownership s" and fresh: "fresh_ids s" and nlo: "no_lastOutline s"
      by (simp_all add: inv_def)
    have objs3: "allObjects s3 = raiseToTop obj (allObjects s)"
      by (simp add: s3_def s1_def)
    have mem3: "members s3 a = members s1 a" for a
      by (cases a) (simp_all add: s3_def)
    have msetobjs: "mset (allObjects s3) = mset (allObjects s)"
      using mem by (simp add: objs3 raiseToTop_mset)
    have cards3: "mset (allCards s3) = mset (allCards s)"
      by (rule allCards_mset_cong[OF msetobjs]) (simp add: mem3 s1_def)
    have own3: "ownership s3"
      by (rule ownership_mset[OF own msetobjs cards3])
    have fresh3: "fresh_ids s3"
      using fresh mset_eq_setD[OF msetobjs] by (simp add: fresh_ids_def s3_def s1_def cong: ref.case_cong)
    have safe3: "outline_safe (allObjects s3) s3"
      using nlo mset_eq_setD[OF msetobjs]
      by (auto simp: no_lastOutline_def outline_safe_def s3_def s1_def split: ref.splits)
    from raiseToTop_hd[OF mem] obtain rest where rest: "allObjects s3 = obj # rest"
      unfolding objs3 by blast
    have press: "press_ok s3 d obj"
    proof (cases obj)
      case (CardRef c)
      then show ?thesis by (simp add: press_ok_def)
    next
      case (StackRef i)
      from hit StackRef have h: "Stack_isIn (cardHeap s) (stackHeap s i) (clientX e) (clientY e) = Some True"
        by simp
      from ownership_members_distinct[OF own mem] StackRef
      have "distinct (members s1 (StackRef i))"
        by (simp add: s1_def del: members.simps)
      then have dist: "distinct (items (stackHeap s1 i))" by simp
      have len: "length (items (stackHeap s1 i)) = length (items (stackHeap s i))"
        using flip_on_press_length[of "button e" obj s "StackRef i"] by (simp add: s1_def)
      from pressed_ok[OF h dist _ _ _ len]
      obtain n where "pressedCardIndex s1 (StackRef i) (clientX e) (clientY e) = Some n" "0 \<le> n"
        "n < int (length (items (stackHeap s1 i)))"
        "pressedCard s1 (StackRef i) (clientX e) (clientY e) = js_nth (items (stackHeap s1 i)) n"
        by (auto simp: s1_def)
      with StackRef show ?thesis
        by (simp add: press_ok_def d_def s3_def)
    next
      case (PileRef i)
      from hit PileRef have "items (pileHeap s i) \<noteq> []"
        by (auto dest: Pile_isIn_hit)
      moreover have "length (members s1 (PileRef i)) = length (members s (PileRef i))"
        unfolding s1_def by (rule flip_on_press_length)
      ultimately show ?thesis using PileRef
        by (auto simp: press_ok_def s3_def)
    qed
    have sess3: "session_ok s3"
      using rest press by (simp add: session_ok_def s3_def d_def hover_ok_def)
    from tick_inv[OF own3 fresh3 sess3 safe3] obtain s' where
      s': "tick s3 = Inr s'" "inv s'" "struct s' = struct s3"
      by blast
    from allCards_struct[OF s'(3)] cards3 have "mset (allCards s') = mset (allCards s)"
      by simp
    with s' md show ?thesis by simp
  qed
qed

subsection \<open>Setters leave the structure alone\<close>

lemmas set_flipped_frame [simp] = structD[OF struct_set_flipped]
lemmas set_direction_frame [simp] = structD[OF struct_set_direction]
lemmas set_x_frame [simp] = structD[OF struct_set_x]
lemmas set_y_frame [simp] = structD[OF struct_set_y]

lemma members_set_flipped [simp]: "members (set_flipped r v s) a = members s a"
  by (rule members_struct) simp

lemma members_set_direction [simp]: "members (set_direction r v s) a = members s a"
  by (rule members_struct) simp

lemma members_set_x [simp]: "members (set_x r v s) a = members s a"
  by (rule members_struct) simp

lemma members_set_y [simp]: "members (set_y r v s) a = members s a"
  by (rule members_struct) simp

subsection \<open>Splicing\<close>

lemma splice_remove_in_range:
  assumes "0 \<le> k" "k < int (length xs)"
  shows "splice_remove xs (Some k) = (Some (xs ! nat k), take (nat k) xs @ drop (Suc (nat k)) xs)"
proof -
  from assms have "nat k < length xs" by linarith
  with assms show ?thesis
    by (simp add: splice_remove_def splice_start_def Let_def min_def)
qed

lemma splice_replace_1 [simp]: "splice_replace (a # b # xs) (Some 1) v = a # v # xs"
  by (simp add: splice_replace_def splice_start_def)

lemma splice_replace_0 [simp]: "splice_replace xs (Some 0) v = v # tl xs"
  by (cases xs) (simp_all add: splice_replace_def splice_start_def)

lemma mset_remove_nth:
  assumes "n < length xs"
  shows "mset xs = add_mset (xs ! n) (mset (take n xs @ drop (Suc n) xs))"
proof -
  have "xs = take n xs @ xs ! n # drop (Suc n) xs"
    using assms by (rule id_take_nth_drop)
  then have "mset xs = mset (take n xs @ xs ! n # drop (Suc n) xs)"
    by simp
  then show ?thesis by simp
qed

subsection \<open>Ownership of a registry whose first object is a group\<close>

lemma owned_not_standalone:
  assumes "ownership s" "allObjects s = g # rest" "c \<in> set (members s g)"
  shows "CardRef c \<notin> set rest"
proof
  assume "CardRef c \<in> set rest"
  then have "c \<in> set (concat (map (members s) rest))"
    by (force simp: image_iff)
  with assms show False
    by (auto simp: ownership_def allCards_def)
qed

lemma group_not_in_rest:
  assumes "ownership s" "allObjects s = g # rest"
  shows "g \<notin> set rest"
  using assms by (simp add: ownership_def)

text \<open>
  Taking the card \<open>c\<close> out of the group \<open>g\<close> at the front of the registry and putting it on
  top; \<open>g'\<close> is what stands for the group afterwards: the group itself, or its one
  remaining member.
\<close>

lemma extraction_ownership:
  assumes own: "ownership s" and objs: "allObjects s = g # rest"
    and mem: "mset (members s g) = add_mset c (mset left)"
    and objs': "allObjects s' = CardRef c # g' # rest"
    and g': "members s' g' = left" "g' = g \<or> (\<exists>m. g' = CardRef m \<and> left = [m])"
    and others: "\<And>r. r \<in> set rest \<Longrightarrow> members s' r = members s r"
  shows "ownership s' \<and> mset (allCards s') = mset (allCards s)"
proof -
  have rest_eq: "map (members s') rest = map (members s) rest"
    using others by simp
  have cards': "allCards s' = c # left @ concat (map (members s) rest)"
    by (simp add: allCards_def objs' g'(1) rest_eq)
  have cards: "allCards s = members s g @ concat (map (members s) rest)"
    by (simp add: allCards_def objs)
  have eq: "mset (allCards s') = mset (allCards s)"
    by (simp add: cards cards' mem)
  from own have dc: "distinct (allCards s)" and dr: "distinct (g # rest)"
    by (simp_all add: ownership_def objs)
  from eq dc have dc': "distinct (allCards s')"
    using mset_eq_imp_distinct_iff by blast
  have cin: "c \<in> set (members s g)"
    using mem by (metis mset_eq_setD list.set_intros(1) set_mset_add_mset_insert insertI1 set_mset_mset)
  have c_rest: "CardRef c \<notin> set rest"
    by (rule owned_not_standalone[OF own objs cin])
  have left_sub: "set left \<subseteq> set (members s g)"
    using mem by (metis mset_eq_setD set_mset_add_mset_insert set_mset_mset subset_insertI)
  have "CardRef c \<noteq> g' \<and> g' \<notin> set rest"
  proof (cases "g' = g")
    case True
    have "CardRef c \<noteq> g"
    proof
      assume "CardRef c = g"
      then have "members s g = [c]" by auto
      with mem have "left = []" by simp
      moreover from \<open>CardRef c = g\<close> True have "members s' g' = [c]" by auto
      ultimately show False using g'(1) by simp
    qed
    with True dr show ?thesis by simp
  next
    case False
    with g'(2) obtain m where m: "g' = CardRef m" "left = [m]" by blast
    with dc' cards' have "m \<noteq> c" by auto
    moreover from m left_sub have "m \<in> set (members s g)" by simp
    then have "CardRef m \<notin> set rest"
      by (rule owned_not_standalone[OF own objs])
    ultimately show ?thesis using m by simp
  qed
  with c_rest dr have "distinct (allObjects s')"
    by (simp add: objs')
  with dc' eq show ?thesis by (simp add: ownership_def)
qed

subsection \<open>Degeneration\<close>

lemma degenerate_result:
  assumes "allObjects s = a0 # g # rest"
  shows "\<exists>s'. degenerate off s = Inr s'
           \<and> allObjects s' = a0 # (case get_items s g of Some [m] \<Rightarrow> CardRef m | _ \<Rightarrow> g) # rest
           \<and> dragging s' = dragging s \<and> nextId s' = nextId s
           \<and> (\<forall>i. items (stackHeap s' i) = items (stackHeap s i))
           \<and> (\<forall>i. items (pileHeap s' i) = items (pileHeap s i))
           \<and> (\<forall>i. lastOutline (stackHeap s' i) = lastOutline (stackHeap s i))"
proof (cases "get_items s g")
  case None
  with assms show ?thesis by (simp add: degenerate_def)
next
  case (Some its)
  show ?thesis
  proof (cases its)
    case Nil
    with Some assms show ?thesis by (simp add: degenerate_def)
  next
    case (Cons m tl)
    show ?thesis
    proof (cases tl)
      case Nil
      with Cons Some assms show ?thesis
        by (simp add: degenerate_def Let_def)
    next
      case (Cons b tl')
      with \<open>its = m # tl\<close> Some assms show ?thesis by (simp add: degenerate_def)
    qed
  qed
qed

lemma reposition_result:
  assumes "idx \<noteq> None"
  shows "\<exists>s'. reposition idx a0 a1 s = Inr s' \<and> struct s' = struct s
           \<and> (\<forall>i. lastOutline (stackHeap s' i) = lastOutline (stackHeap s i))"
  using assms by (cases "get_direction s a0") (auto simp: reposition_def Let_def)

lemma degenerate_closed:
  assumes "allObjects s = a0 # g # rest"
  shows "degenerate off s =
     Inr (case get_items s g of
            Some [m] \<Rightarrow>
              s\<lparr>cardHeap := (cardHeap s)(m := (cardHeap s m)\<lparr>flipped := get_flipped s g,
                     direction := get_direction s g, x_c := get_x s g - off, y_c := get_y s g - off\<rparr>),
                allObjects := a0 # CardRef m # rest\<rparr>
          | _ \<Rightarrow> s)"
proof (cases g)
  case (CardRef c)
  with assms show ?thesis by (simp add: degenerate_def)
next
  case (StackRef i)
  with assms show ?thesis
    by (simp add: degenerate_def Let_def split: list.splits)
next
  case (PileRef i)
  with assms show ?thesis
    by (simp add: degenerate_def Let_def split: list.splits)
qed


text \<open>What a group leaves behind in the registry: itself, or its one remaining member.\<close>

lemma extract_stack_facts:
  assumes objs: "allObjects s = StackRef j # rest"
    and d: "object d = StackRef j" "specCardIndex d = Some k" "0 \<le> k"
      "k < int (length (items (stackHeap s j)))"
    and dist: "distinct (items (stackHeap s j))"
  defines "st \<equiv> stackHeap s j"
  defines "c \<equiv> items st ! nat k"
  defines "left \<equiv> take (nat k) (items st) @ drop (Suc (nat k)) (items st)"
  shows "\<exists>s'. extract_stack e d s = Inr s'
     \<and> allObjects s' = CardRef c # (case left of [m] \<Rightarrow> CardRef m | _ \<Rightarrow> StackRef j) # rest
     \<and> dragging s' = Some (retarget e (CardRef c))
     \<and> nextId s' = nextId s \<and> lastDragged s' = lastDragged s
     \<and> stackHeap s' = (stackHeap s)(j := st\<lparr>items := left\<rparr>)
     \<and> pileHeap s' = pileHeap s
     \<and> flipped (cardHeap s' c) = flipped st
     \<and> direction (cardHeap s' c) = direction st
     \<and> (direction st = Forward \<longrightarrow>
           x_c (cardHeap s' c) = X_g st + real_of_int k * 22.5 \<and> y_c (cardHeap s' c) = Y_g st)
     \<and> (direction st = Clockwise90 \<longrightarrow>
           x_c (cardHeap s' c) = X_g st \<and> y_c (cardHeap s' c) = Y_g st + real_of_int k * 22.5)
     \<and> (direction st = Turned180 \<longrightarrow>
           x_c (cardHeap s' c) = X_g st - real_of_int k * 22.5 \<and> y_c (cardHeap s' c) = Y_g st)
     \<and> (direction st = Clockwise270 \<longrightarrow>
           x_c (cardHeap s' c) = X_g st \<and> y_c (cardHeap s' c) = Y_g st - real_of_int k * 22.5)
     \<and> (\<forall>m. left = [m] \<longrightarrow>
           flipped (cardHeap s' m) = flipped st \<and> direction (cardHeap s' m) = direction st
           \<and> x_c (cardHeap s' m) = X_g st \<and> y_c (cardHeap s' m) = Y_g st)
     \<and> (\<forall>x. x \<noteq> c \<and> left \<noteq> [x] \<longrightarrow> cardHeap s' x = cardHeap s x)"
proof -
  have nk: "nat k < length (items st)"
    using d(3,4) unfolding st_def by linarith
  have c_left: "c \<notin> set left"
  proof -
    have "items st = take (nat k) (items st) @ c # drop (Suc (nat k)) (items st)"
      unfolding c_def using nk by (rule id_take_nth_drop)
    then have "distinct (take (nat k) (items st) @ c # drop (Suc (nat k)) (items st))"
      using dist unfolding st_def by simp
    then show ?thesis by (auto simp: left_def)
  qed
  have sr: "splice_remove (items st) (Some k) = (Some c, left)"
    using splice_remove_in_range[OF d(3,4)] by (simp add: c_def left_def st_def)
  consider (nil) "left = []" | (one) m where "left = [m]" | (more) a b tl where "left = a # b # tl"
    by (cases left rule: list.exhaust[case_product list.exhaust]) (metis list.exhaust)+
  then show ?thesis
  proof cases
    case nil
    show ?thesis
      by (cases "direction st")
         (simp_all add: extract_stack_def d objs sr Let_def degenerate_closed reposition_def nil
            st_def[symmetric])
  next
    case one
    with c_left have "m \<noteq> c" by auto
    with one show ?thesis
      by (cases "direction st")
         (simp_all add: extract_stack_def d objs sr Let_def degenerate_closed reposition_def
            st_def[symmetric])
  next
    case more
    show ?thesis
      by (cases "direction st")
         (simp_all add: extract_stack_def d objs sr Let_def degenerate_closed reposition_def more
            st_def[symmetric])
  qed
qed


lemma extract_pile_facts:
  assumes objs: "allObjects s = PileRef j # rest"
    and d: "object d = PileRef j"
    and its: "items (pileHeap s j) = c # left"
    and dist: "distinct (items (pileHeap s j))"
  defines "p \<equiv> pileHeap s j"
  shows "\<exists>s'. extract_pile e d s = Inr s'
     \<and> allObjects s' = CardRef c # (case left of [m] \<Rightarrow> CardRef m | _ \<Rightarrow> PileRef j) # rest
     \<and> dragging s' = Some (retarget e (CardRef c))
     \<and> nextId s' = nextId s \<and> lastDragged s' = lastDragged s
     \<and> pileHeap s' = (pileHeap s)(j := p\<lparr>items := left\<rparr>)
     \<and> stackHeap s' = stackHeap s
     \<and> flipped (cardHeap s' c) = flipped p
     \<and> direction (cardHeap s' c) = direction p
     \<and> x_c (cardHeap s' c) = x_c (cardHeap s c) \<and> y_c (cardHeap s' c) = y_c (cardHeap s c)
     \<and> (\<forall>m. left = [m] \<longrightarrow>
           flipped (cardHeap s' m) = flipped p \<and> direction (cardHeap s' m) = direction p
           \<and> x_c (cardHeap s' m) = X_g p - 2 \<and> y_c (cardHeap s' m) = Y_g p - 2)
     \<and> (\<forall>x. x \<noteq> c \<and> left \<noteq> [x] \<longrightarrow> cardHeap s' x = cardHeap s x)"
proof -
  from its dist have c_left: "c \<notin> set left" by simp
  have its': "items p = c # left" by (simp add: p_def its)
  consider (nil) "left = []" | (one) m where "left = [m]" | (more) a b tl where "left = a # b # tl"
    by (cases left rule: list.exhaust[case_product list.exhaust]) (metis list.exhaust)+
  then show ?thesis
  proof cases
    case nil
    with its' show ?thesis
      by (simp add: extract_pile_def d objs Let_def degenerate_closed p_def[symmetric])
  next
    case one
    with c_left have "m \<noteq> c" by auto
    with one its' show ?thesis
      by (simp add: extract_pile_def d objs Let_def degenerate_closed p_def[symmetric])
  next
    case more
    with its' show ?thesis
      by (simp add: extract_pile_def d objs Let_def degenerate_closed p_def[symmetric])
  qed
qed

subsection \<open>The invariant after an extraction\<close>

lemma extraction_inv:
  assumes own: "ownership s" and fresh: "fresh_ids s" and nlo: "no_lastOutline s"
    and objs: "allObjects s = g # rest"
    and grp: "\<And>x. g \<noteq> CardRef x"
    and mem: "mset (members s g) = add_mset c (mset left)"
    and objs': "allObjects s' = CardRef c # (case left of [m] \<Rightarrow> CardRef m | _ \<Rightarrow> g) # rest"
    and left: "members s' g = left"
    and others: "\<And>r. r \<noteq> g \<Longrightarrow> members s' r = members s r"
    and nid: "nextId s' = nextId s"
    and lo: "\<And>i. lastOutline (stackHeap s' i) = lastOutline (stackHeap s i)"
  shows "ownership s' \<and> fresh_ids s' \<and> no_lastOutline s' \<and> mset (allCards s') = mset (allCards s)"
proof -
  define g' where "g' = (case left of [m] \<Rightarrow> CardRef m | _ \<Rightarrow> g)"
  have g'_cases: "g' = g \<or> (\<exists>m. g' = CardRef m \<and> left = [m])"
    by (auto simp: g'_def split: list.splits)
  have mem': "members s' g' = left"
    using g'_cases left by auto
  have rest: "members s' r = members s r" if "r \<in> set rest" for r
  proof (rule others)
    from that group_not_in_rest[OF own objs] show "r \<noteq> g" by auto
  qed
  from extraction_ownership[OF own objs mem objs'[folded g'_def] mem' g'_cases rest]
  have 1: "ownership s'" "mset (allCards s') = mset (allCards s)" by simp_all
  have g'_fresh: "(case g' of CardRef c \<Rightarrow> True | StackRef i \<Rightarrow> i < nextId s | PileRef i \<Rightarrow> i < nextId s)"
    using g'_cases fresh objs by (auto simp: fresh_ids_def)
  have 2: "fresh_ids s'"
    using fresh g'_fresh by (simp add: fresh_ids_def objs objs'[folded g'_def] nid cong: ref.case_cong)
  have g'_lo: "(case g' of StackRef i \<Rightarrow> \<not> lastOutline (stackHeap s i) | _ \<Rightarrow> True)"
    using g'_cases nlo objs by (auto simp: no_lastOutline_def)
  have 3: "no_lastOutline s'"
    using nlo g'_lo by (simp add: no_lastOutline_def objs objs'[folded g'_def] lo cong: ref.case_cong)
  from 1 2 3 show ?thesis by simp
qed

subsection \<open>Updates that the ownership invariant does not read\<close>

lemma members_dragging_update [simp]: "members (s\<lparr>dragging := x\<rparr>) = members s"
proof
  fix r show "members (s\<lparr>dragging := x\<rparr>) r = members s r" by (cases r) simp_all
qed

lemma members_lastDragged_update [simp]: "members (s\<lparr>lastDragged := x\<rparr>) = members s"
proof
  fix r show "members (s\<lparr>lastDragged := x\<rparr>) r = members s r" by (cases r) simp_all
qed

lemma allCards_dragging_update [simp]: "allCards (s\<lparr>dragging := x\<rparr>) = allCards s"
  by (simp add: allCards_def)

lemma allCards_lastDragged_update [simp]: "allCards (s\<lparr>lastDragged := x\<rparr>) = allCards s"
  by (simp add: allCards_def)

lemma ownership_dragging_update [simp]: "ownership (s\<lparr>dragging := x\<rparr>) = ownership s"
  by (simp add: ownership_def)

lemma ownership_lastDragged_update [simp]: "ownership (s\<lparr>lastDragged := x\<rparr>) = ownership s"
  by (simp add: ownership_def)

lemma fresh_ids_dragging_update [simp]: "fresh_ids (s\<lparr>dragging := x\<rparr>) = fresh_ids s"
  by (simp add: fresh_ids_def cong: ref.case_cong)

lemma fresh_ids_lastDragged_update [simp]: "fresh_ids (s\<lparr>lastDragged := x\<rparr>) = fresh_ids s"
  by (simp add: fresh_ids_def cong: ref.case_cong)

lemma no_lastOutline_dragging_update [simp]: "no_lastOutline (s\<lparr>dragging := x\<rparr>) = no_lastOutline s"
  by (simp add: no_lastOutline_def cong: ref.case_cong)

lemma no_lastOutline_lastDragged_update [simp]: "no_lastOutline (s\<lparr>lastDragged := x\<rparr>) = no_lastOutline s"
  by (simp add: no_lastOutline_def cong: ref.case_cong)

lemma struct_lastDragged_update [simp]: "struct (s\<lparr>lastDragged := x\<rparr>) = struct s"
  by (simp add: struct_def)

lemma session_ok_lastDragged_update [simp]: "session_ok (s\<lparr>lastDragged := x\<rparr>) = session_ok s"
  by (rule session_ok_struct) simp

lemma inv_lastDragged_update [simp]: "inv (s\<lparr>lastDragged := x\<rparr>) = inv s"
  by (simp add: inv_def)

lemma session_ok_pointer:
  "session_ok (s\<lparr>dragging := Some (d\<lparr>x_d := a, y_d := b\<rparr>)\<rparr>) = session_ok (s\<lparr>dragging := Some d\<rparr>)"
  by (simp add: session_ok_def hover_ok_def press_ok_def
      cong: list.case_cong option.case_cong ref.case_cong)

lemma session_ok_idle [simp]: "session_ok (s\<lparr>dragging := None\<rparr>)"
  by (simp add: session_ok_def)

subsection \<open>The first move\<close>

lemma set_draggedYet_inv:
  assumes "ownership s" "fresh_ids s" "no_lastOutline s" "dragging s = Some d"
    "allObjects s = a0 # rest" "object d = a0" "type_d d = constructor_name a0" "hover_ok s d"
  shows "inv (set_draggedYet s) \<and> allCards (set_draggedYet s) = allCards s
         \<and> dragging (set_draggedYet s) = Some (d\<lparr>draggedYet := True\<rparr>)"
proof -
  have eq: "set_draggedYet s = s\<lparr>dragging := Some (d\<lparr>draggedYet := True\<rparr>)\<rparr>"
    using assms(4) by (simp add: set_draggedYet_def)
  have "hover_ok (s\<lparr>dragging := Some (d\<lparr>draggedYet := True\<rparr>)\<rparr>) (d\<lparr>draggedYet := True\<rparr>)"
    using assms(8) by (simp add: hover_ok_def cong: option.case_cong)
  then have "session_ok (set_draggedYet s)"
    using assms(5,6,7) by (simp add: eq session_ok_def)
  with assms(1,2,3) show ?thesis
    by (simp add: inv_def eq)
qed

lemma first_move_inv:
  assumes "inv s" "dragging s = Some d"
  shows "\<exists>s' d'. first_move e s = Inr s' \<and> inv s' \<and> mset (allCards s') = mset (allCards s)
           \<and> dragging s' = Some d'"
proof -
  from assms have own: "ownership s" and fresh: "fresh_ids s" and nlo: "no_lastOutline s"
    and sess: "session_ok s"
    by (simp_all add: inv_def)
  from sess assms(2) obtain a0 rest where objs: "allObjects s = a0 # rest"
    and obj: "object d = a0" and ty: "type_d d = constructor_name a0" and hov: "hover_ok s d"
    and press: "draggedYet d \<or> press_ok s d a0"
    by (auto simp: session_ok_def split: list.splits)
  note plain = set_draggedYet_inv[OF own fresh nlo assms(2) objs obj ty hov]
  show ?thesis
  proof (cases "draggedYet d")
    case True
    with assms show ?thesis by (simp add: first_move_def)
  next
    case False
    with press have press: "press_ok s d a0" by simp
    show ?thesis
    proof (cases a0)
      case (CardRef c)
      with ty False assms(2) have "first_move e s = Inr (set_draggedYet s)"
        by (simp add: first_move_def)
      with plain show ?thesis by simp
    next
      case (StackRef j)
      show ?thesis
      proof (cases "doubleClick d")
        case True
        with StackRef ty False assms(2) have "first_move e s = Inr (set_draggedYet s)"
          by (simp add: first_move_def)
        with plain show ?thesis by simp
      next
        case dc: False
        from press StackRef obtain k where k: "specCardIndex d = Some k" "0 \<le> k"
          "k < int (length (items (stackHeap s j)))"
          by (auto simp: press_ok_def split: option.splits)
        have mem: "StackRef j \<in> set (allObjects s)"
          by (simp add: objs StackRef)
        from ownership_members_distinct[OF own mem]
        have dist: "distinct (items (stackHeap s j))" by simp
        define c where "c = items (stackHeap s j) ! nat k"
        define left where "left = take (nat k) (items (stackHeap s j)) @ drop (Suc (nat k)) (items (stackHeap s j))"
        from extract_stack_facts[OF objs[unfolded StackRef] obj[unfolded StackRef] k dist, of e]
        obtain s5 where s5: "extract_stack e d s = Inr s5"
          "allObjects s5 = CardRef c # (case left of [m] \<Rightarrow> CardRef m | _ \<Rightarrow> StackRef j) # rest"
          "dragging s5 = Some (retarget e (CardRef c))"
          "nextId s5 = nextId s"
          "stackHeap s5 = (stackHeap s)(j := (stackHeap s j)\<lparr>items := left\<rparr>)"
          "pileHeap s5 = pileHeap s"
          unfolding c_def left_def by blast
        have nk: "nat k < length (items (stackHeap s j))"
          using k by linarith
        have m: "mset (members s (StackRef j)) = add_mset c (mset left)"
          using mset_remove_nth[OF nk] by (simp add: c_def left_def)
        have left5: "members s5 (StackRef j) = left"
          by (simp add: s5(5))
        have others: "members s5 r = members s r" if "r \<noteq> StackRef j" for r
          using that by (cases r) (simp_all add: s5(5,6))
        have lo: "lastOutline (stackHeap s5 i) = lastOutline (stackHeap s i)" for i
          by (simp add: s5(5))
        from extraction_inv[OF own fresh nlo objs[unfolded StackRef] _ m s5(2) left5 others s5(4) lo]
        have inv5: "ownership s5" "fresh_ids s5" "no_lastOutline s5"
          and cards5: "mset (allCards s5) = mset (allCards s)"
          by simp_all
        have "hover_ok s5 (retarget e (CardRef c))"
          by (simp add: hover_ok_def retarget_def)
        from set_draggedYet_inv[OF inv5 s5(3) s5(2) _ _ this]
        have "inv (set_draggedYet s5)" "allCards (set_draggedYet s5) = allCards s5"
          "\<exists>d'. dragging (set_draggedYet s5) = Some d'"
          by (simp_all add: retarget_def)
        moreover have "first_move e s = Inr (set_draggedYet s5)"
          using StackRef ty False dc assms(2) s5(1) by (simp add: first_move_def)
        ultimately show ?thesis using cards5 by auto
      qed
    next
      case (PileRef j)
      show ?thesis
      proof (cases "doubleClick d")
        case True
        with PileRef ty False assms(2) have "first_move e s = Inr (set_draggedYet s)"
          by (simp add: first_move_def)
        with plain show ?thesis by simp
      next
        case dc: False
        from press PileRef obtain c left where its: "items (pileHeap s j) = c # left"
          by (auto simp: press_ok_def neq_Nil_conv)
        have mem: "PileRef j \<in> set (allObjects s)"
          by (simp add: objs PileRef)
        from ownership_members_distinct[OF own mem]
        have dist: "distinct (items (pileHeap s j))" by simp
        from extract_pile_facts[OF objs[unfolded PileRef] obj[unfolded PileRef] its dist, of e]
        obtain s5 where s5: "extract_pile e d s = Inr s5"
          "allObjects s5 = CardRef c # (case left of [m] \<Rightarrow> CardRef m | _ \<Rightarrow> PileRef j) # rest"
          "dragging s5 = Some (retarget e (CardRef c))"
          "nextId s5 = nextId s"
          "pileHeap s5 = (pileHeap s)(j := (pileHeap s j)\<lparr>items := left\<rparr>)"
          "stackHeap s5 = stackHeap s"
          by blast
        have m: "mset (members s (PileRef j)) = add_mset c (mset left)"
          by (simp add: its)
        have left5: "members s5 (PileRef j) = left"
          by (simp add: s5(5))
        have others: "members s5 r = members s r" if "r \<noteq> PileRef j" for r
          using that by (cases r) (simp_all add: s5(5,6))
        have lo: "lastOutline (stackHeap s5 i) = lastOutline (stackHeap s i)" for i
          by (simp add: s5(6))
        from extraction_inv[OF own fresh nlo objs[unfolded PileRef] _ m s5(2) left5 others s5(4) lo]
        have inv5: "ownership s5" "fresh_ids s5" "no_lastOutline s5"
          and cards5: "mset (allCards s5) = mset (allCards s)"
          by simp_all
        have "hover_ok s5 (retarget e (CardRef c))"
          by (simp add: hover_ok_def retarget_def)
        from set_draggedYet_inv[OF inv5 s5(3) s5(2) _ _ this]
        have "inv (set_draggedYet s5)" "allCards (set_draggedYet s5) = allCards s5"
          "\<exists>d'. dragging (set_draggedYet s5) = Some d'"
          by (simp_all add: retarget_def)
        moreover have "first_move e s = Inr (set_draggedYet s5)"
          using PileRef ty False dc assms(2) s5(1) by (simp add: first_move_def)
        ultimately show ?thesis using cards5 by auto
      qed
    qed
  qed
qed

subsection \<open>Moving the target and marking what is under the pointer\<close>

lemma lastDragged_setters [simp]:
  "lastDragged (set_flipped r b s) = lastDragged s"
  "lastDragged (set_direction r dir s) = lastDragged s"
  "lastDragged (set_x r v s) = lastDragged s"
  "lastDragged (set_y r v s) = lastDragged s"
  by (cases r; simp)+

lemma move_target_result:
  assumes "allObjects s \<noteq> []"
  shows "\<exists>s'. move_target e s = Inr s' \<and> struct s' = struct s
           \<and> lastDragged s' = lastDragged s
           \<and> (\<forall>i. lastOutline (stackHeap s' i) = lastOutline (stackHeap s i))"
  using assms
  by (cases "allObjects s"; cases "dragging s") (auto simp: move_target_def Let_def)

lemma hover_frame [simp]:
  "allObjects (hover e s) = allObjects s"
  "nextId (hover e s) = nextId s"
  "lastDragged (hover e s) = lastDragged s"
  "items (stackHeap (hover e s) i) = items (stackHeap s i)"
  "items (pileHeap (hover e s) i) = items (pileHeap s i)"
  by (simp_all add: hover_def Let_def mark_stack_def mark_card_def
      split: option.splits ref.splits outline.splits)

lemma members_hover [simp]: "members (hover e s) = members s"
proof
  fix r show "members (hover e s) r = members s r" by (cases r) simp_all
qed

lemma allCards_hover [simp]: "allCards (hover e s) = allCards s"
  by (simp add: allCards_def)

lemma hover_dragging:
  assumes "dragging s = Some d"
  shows "dragging (hover e s) =
     Some (if type_d d = TCard then
             d\<lparr>overIndex := Some (findIndex (\<lambda>a. a \<noteq> object d \<and> isIn s a (clientX e) (clientY e) = Some True) (allObjects s)),
               over := js_nth (allObjects s) (findIndex (\<lambda>a. a \<noteq> object d \<and> isIn s a (clientX e) (clientY e) = Some True) (allObjects s))\<rparr>
           else d)"
  using assms
  by (simp add: hover_def Let_def mark_stack_def mark_card_def
      split: option.splits ref.splits outline.splits)

lemma hover_lastOutline:
  assumes "lastOutline (stackHeap (hover e s) i)"
  shows "lastOutline (stackHeap s i) \<or> isIn s (StackRef i) (clientX e) (clientY e) = Some True"
proof (cases "dragging s")
  case None
  with assms show ?thesis by (simp add: hover_def)
next
  case (Some d)
  let ?Q = "\<lambda>a. a \<noteq> object d \<and> isIn s a (clientX e) (clientY e) = Some True"
  let ?k = "findIndex ?Q (allObjects s)"
  show ?thesis
  proof (cases "type_d d = TCard")
    case False
    with Some assms show ?thesis by (simp add: hover_def)
  next
    case True
    show ?thesis
    proof (cases "js_nth (allObjects s) ?k")
      case None
      with Some True assms show ?thesis by (simp add: hover_def Let_def)
    next
      case ov: (Some r)
      from js_nth_findIndex[OF ov] have Q: "?Q r" by blast
      show ?thesis
      proof (cases r)
        case (CardRef c)
        with Some True ov assms show ?thesis
          by (simp add: hover_def Let_def mark_card_def split: outline.splits)
      next
        case (PileRef j)
        with Some True ov assms show ?thesis
          by (simp add: hover_def Let_def)
      next
        case (StackRef j)
        show ?thesis
        proof (cases "j = i")
          case True
          with Q StackRef show ?thesis by simp
        next
          case False
          with Some \<open>type_d d = TCard\<close> ov StackRef assms show ?thesis
            by (simp add: hover_def Let_def mark_stack_def split: option.splits if_splits)
        qed
      qed
    qed
  qed
qed

lemma hover_safe:
  assumes "no_lastOutline s"
  shows "outline_safe (allObjects (hover e s)) (hover e s)"
  unfolding outline_safe_def
proof
  fix r assume r: "r \<in> set (allObjects (hover e s))"
  show "case r of StackRef i \<Rightarrow> lastOutline (stackHeap (hover e s) i) \<longrightarrow> items (stackHeap (hover e s) i) \<noteq> []
        | _ \<Rightarrow> True"
  proof (cases r)
    case (StackRef i)
    have "items (stackHeap s i) \<noteq> []" if "lastOutline (stackHeap (hover e s) i)"
    proof -
      from r StackRef assms have "\<not> lastOutline (stackHeap s i)"
        by (auto simp: no_lastOutline_def)
      with hover_lastOutline[OF that] have "isIn s (StackRef i) (clientX e) (clientY e) = Some True"
        by simp
      then show ?thesis by (auto dest: Stack_isIn_nonempty)
    qed
    with StackRef show ?thesis by simp
  qed simp_all
qed

lemma hover_session_ok:
  assumes "session_ok s"
  shows "session_ok (hover e s)"
proof (cases "dragging s")
  case None
  then show ?thesis using assms by (simp add: hover_def)
next
  case (Some d)
  from assms Some obtain a0 rest where objs: "allObjects s = a0 # rest"
    and obj: "object d = a0" and ty: "type_d d = constructor_name a0" and hov: "hover_ok s d"
    and press: "draggedYet d \<or> press_ok s d a0"
    by (auto simp: session_ok_def split: list.splits)
  show ?thesis
  proof (cases "type_d d = TCard")
    case False
    with Some have "hover e s = s" by (simp add: hover_def)
    with assms show ?thesis by simp
  next
    case True
    let ?Q = "\<lambda>a. a \<noteq> object d \<and> isIn s a (clientX e) (clientY e) = Some True"
    let ?k = "findIndex ?Q (allObjects s)"
    let ?d = "d\<lparr>overIndex := Some ?k, over := js_nth (allObjects s) ?k\<rparr>"
    have dr: "dragging (hover e s) = Some ?d"
      using hover_dragging[OF Some, of e] True by simp
    have "hover_ok (hover e s) ?d"
    proof (cases "js_nth (allObjects s) ?k")
      case None
      then show ?thesis by (simp add: hover_ok_def)
    next
      case (Some ov)
      from js_nth_findIndex[OF Some] obtain k' where k': "?k = int k'" "k' < length (allObjects s)"
        "allObjects s ! k' = ov" "?Q ov"
        by blast
      have "k' \<noteq> 0"
      proof
        assume "k' = 0"
        with k'(3) objs obj have "ov = object d" by simp
        with k'(4) show False by simp
      qed
      with k'(1) have "0 < ?k" by simp
      with Some True show ?thesis by (simp add: hover_ok_def)
    qed
    moreover from True ty have "press_ok (hover e s) ?d a0"
      by (cases a0) (simp_all add: press_ok_def)
    ultimately show ?thesis
      using objs obj ty by (simp add: session_ok_def dr)
  qed
qed

lemma hover_fresh [simp]: "fresh_ids (hover e s) = fresh_ids s"
  by (simp add: fresh_ids_def cong: ref.case_cong)

lemma hover_ownership [simp]: "ownership (hover e s) = ownership s"
  by (simp add: ownership_def)

subsection \<open>The mousemove handler keeps the invariant\<close>

lemma mousemove_inv:
  assumes "inv s"
  shows "\<exists>s'. mousemove e s = Inr s' \<and> inv s' \<and> mset (allCards s') = mset (allCards s)"
proof (cases "dragging s")
  case None
  with assms show ?thesis by (simp add: mousemove_def)
next
  case (Some d)
  define s1 where "s1 = s\<lparr>dragging := Some (d\<lparr>x_d := clientX e, y_d := clientY e\<rparr>)\<rparr>"
  have "struct (s\<lparr>dragging := Some d\<rparr>) = struct s"
    using Some by (simp add: struct_def)
  then have "session_ok (s\<lparr>dragging := Some d\<rparr>) = session_ok s"
    by (rule session_ok_struct)
  with assms have inv1: "inv s1"
    by (simp add: inv_def s1_def session_ok_pointer)
  have d1: "dragging s1 = Some (d\<lparr>x_d := clientX e, y_d := clientY e\<rparr>)"
    by (simp add: s1_def)
  have cards1: "allCards s1 = allCards s" by (simp add: s1_def)
  from first_move_inv[OF inv1 d1, of e] obtain s2 d2 where s2: "first_move e s1 = Inr s2" "inv s2"
    "mset (allCards s2) = mset (allCards s1)" "dragging s2 = Some d2"
    by blast
  from s2(2,4) have ne: "allObjects s2 \<noteq> []"
    by (auto simp: inv_def session_ok_def)
  from move_target_result[OF ne, of e] obtain s3 where s3: "move_target e s2 = Inr s3"
    "struct s3 = struct s2" "\<And>i. lastOutline (stackHeap s3 i) = lastOutline (stackHeap s2 i)"
    by blast
  from inv_struct[OF s3(2,3)] s2(2) have inv3: "inv s3" by simp
  then have own4: "ownership (hover e s3)" and fresh4: "fresh_ids (hover e s3)"
    and sess4: "session_ok (hover e s3)" and safe4: "outline_safe (allObjects (hover e s3)) (hover e s3)"
    by (simp_all add: inv_def hover_session_ok hover_safe del: hover_frame)
  from tick_inv[OF own4 fresh4 sess4 safe4] obtain s' where s': "tick (hover e s3) = Inr s'" "inv s'"
    "struct s' = struct (hover e s3)"
    by blast
  have "allCards s' = allCards s3"
    using allCards_struct[OF s'(3)] by simp
  with allCards_struct[OF s3(2)] s2(3) cards1 have "mset (allCards s') = mset (allCards s)"
    by simp
  moreover have "mousemove e s = Inr s'"
    using Some s2(1) s3(1) s'(1) by (simp add: mousemove_def Let_def s1_def)
  ultimately show ?thesis using s'(2) by simp
qed

subsection \<open>Dropping a card\<close>

lemma mset_splice_insert [simp]: "mset (splice_insert xs start v) = add_mset v (mset xs)"
proof -
  have "mset (take k xs) + mset (drop k xs) = mset xs" for k
    by (metis append_take_drop_id mset_append)
  then show ?thesis by (simp add: splice_insert_def Let_def)
qed

lemma hover_index:
  assumes "hover_ok s d" "over d = Some ov" "allObjects s = a0 # rest"
  shows "type_d d = TCard \<and>
         (\<exists>k. overIndex d = Some (int k) \<and> 0 < k \<and> k \<le> length rest \<and> rest ! (k - 1) = ov)"
proof -
  from assms obtain kk where kk: "type_d d = TCard" "overIndex d = Some kk" "0 < kk"
    "js_nth (allObjects s) kk = Some ov"
    by (auto simp: hover_ok_def split: option.splits)
  define k where "k = nat kk"
  from kk(3) have k: "kk = int k" "0 < k" by (simp_all add: k_def)
  with kk(4) assms(3) have "k \<le> length rest \<and> rest ! (k - 1) = ov"
    by (auto simp: nth_Cons' split: if_splits)
  with kk k show ?thesis by blast
qed

lemma splice_remove_tail:
  assumes "0 < k" "k \<le> length rest"
  shows "splice_remove (a # rest) (Some (int k)) =
         (Some (rest ! (k - 1)), a # take (k - 1) rest @ drop k rest)"
  using splice_remove_in_range[of "int k" "a # rest"] assms
  by (simp add: nth_Cons' take_Cons')

lemma drop_on_pile_closed:
  assumes "allObjects s = CardRef c # rest"
  shows "drop_on_pile i s =
     Inr (s\<lparr>pileHeap := (pileHeap s)(i := (pileHeap s i)\<lparr>items := c # items (pileHeap s i)\<rparr>),
            allObjects := rest\<rparr>)"
  using assms by (simp add: drop_on_pile_def)

lemma merge_cards_stack:
  assumes "allObjects s = CardRef c # rest" "object d = CardRef c"
    "overIndex d = Some (int k)" "0 < k" "k \<le> length rest" "rest ! (k - 1) = CardRef a"
  shows "merge_cards StackOutline i d s =
     Inr (s\<lparr>stackHeap := (stackHeap s)(nextId s :=
                 (new_Stack (x_c (cardHeap s i)) (y_c (cardHeap s i)) [a, c])
                   \<lparr>direction := direction (cardHeap s i), flipped := flipped (cardHeap s i)\<rparr>),
            nextId := Suc (nextId s),
            allObjects := StackRef (nextId s) # take (k - 1) rest @ drop k rest\<rparr>)"
  using assms by (simp add: merge_cards_def splice_remove_tail Let_def new_Stack_def)

lemma merge_cards_pile:
  assumes "allObjects s = CardRef c # rest" "object d = CardRef c"
    "overIndex d = Some (int k)" "0 < k" "k \<le> length rest" "rest ! (k - 1) = CardRef a"
  shows "merge_cards PileOutline i d s =
     Inr (s\<lparr>pileHeap := (pileHeap s)(nextId s :=
                 (new_Pile (x_c (cardHeap s i)) (y_c (cardHeap s i)) [a, c])
                   \<lparr>direction := direction (cardHeap s i), flipped := flipped (cardHeap s i)\<rparr>),
            nextId := Suc (nextId s),
            allObjects := PileRef (nextId s) # take (k - 1) rest @ drop k rest\<rparr>)"
  using assms by (simp add: merge_cards_def splice_remove_tail Let_def new_Pile_def)

lemma insertion_ownership:
  assumes own: "ownership s" and objs: "allObjects s = CardRef c # rest" and g: "g \<in> set rest"
    and objs': "allObjects s' = rest"
    and ins: "mset (members s' g) = add_mset c (mset (members s g))"
    and others: "\<And>r. r \<noteq> g \<Longrightarrow> members s' r = members s r"
  shows "ownership s' \<and> mset (allCards s') = mset (allCards s)"
proof -
  from own objs have dr: "distinct rest" and dc: "distinct (allCards s)"
    by (simp_all add: ownership_def)
  from g obtain pre post where split: "rest = pre @ g # post"
    by (auto dest: split_list)
  with dr have ng: "g \<notin> set pre" "g \<notin> set post" by auto
  have m: "members s' r = members s r" if "r \<in> set pre \<union> set post" for r
    by (rule others) (use that ng in auto)
  have pre: "map (members s') pre = map (members s) pre"
    by (rule map_cong[OF refl]) (simp add: m)
  have post: "map (members s') post = map (members s) post"
    by (rule map_cong[OF refl]) (simp add: m)
  have "mset (allCards s') = mset (allCards s)"
    by (simp add: allCards_def objs objs' split pre post ins)
  moreover from this dc have "distinct (allCards s')"
    using mset_eq_imp_distinct_iff by blast
  ultimately show ?thesis using dr by (simp add: ownership_def objs')
qed

lemma merge_ownership:
  assumes own: "ownership s" and objs: "allObjects s = CardRef c # rest"
    and k: "0 < k" "k \<le> length rest" "rest ! (k - 1) = CardRef a"
    and objs': "allObjects s' = g # take (k - 1) rest @ drop k rest"
    and gm: "members s' g = [a, c]"
    and gfresh: "g \<notin> set rest"
    and others: "\<And>r. r \<in> set rest \<Longrightarrow> members s' r = members s r"
  shows "ownership s' \<and> mset (allCards s') = mset (allCards s)"
proof -
  define pre where "pre = take (k - 1) rest"
  define post where "post = drop k rest"
  from own objs have dr: "distinct rest" and dc: "distinct (allCards s)"
    by (simp_all add: ownership_def)
  have "rest = take (k - 1) rest @ rest ! (k - 1) # drop (Suc (k - 1)) rest"
    using k by (intro id_take_nth_drop) simp
  with k have split: "rest = pre @ CardRef a # post" by (simp add: pre_def post_def)
  have sub: "set pre \<subseteq> set rest" "set post \<subseteq> set rest"
    by (auto simp: pre_def post_def dest: in_set_takeD in_set_dropD)
  have m: "members s' r = members s r" if "r \<in> set pre \<union> set post" for r
    by (rule others) (use that sub in auto)
  have pre: "map (members s') pre = map (members s) pre"
    by (rule map_cong[OF refl]) (simp add: m)
  have post: "map (members s') post = map (members s) post"
    by (rule map_cong[OF refl]) (simp add: m)
  have objs'': "allObjects s' = g # pre @ post"
    by (simp add: objs' pre_def post_def)
  have "allCards s = c # concat (map (members s) (pre @ CardRef a # post))"
    using split by (simp add: allCards_def objs)
  then have cards: "allCards s = c # concat (map (members s) pre) @ a # concat (map (members s) post)"
    by simp
  have cards': "allCards s' = a # c # concat (map (members s) pre) @ concat (map (members s) post)"
    by (simp add: allCards_def objs'' gm pre post)
  have eq: "mset (allCards s') = mset (allCards s)"
    by (simp add: cards cards')
  with dc have dc': "distinct (allCards s')"
    using mset_eq_imp_distinct_iff by blast
  from dr have "distinct (pre @ post)"
    by (subst (asm) split) simp
  moreover from gfresh sub have "g \<notin> set (pre @ post)" by auto
  ultimately have "distinct (allObjects s')"
    by (simp add: objs'')
  with dc' eq show ?thesis by (simp add: ownership_def)
qed

lemma draw_lastDragged: "draw a s = Inr s' \<Longrightarrow> lastDragged s' = lastDragged s"
  by (cases a)
     (auto simp: Card_draw_def Stack_draw_def Pile_draw_def Let_def split: if_splits list.splits)

lemma draw_each_lastDragged: "draw_each objs s = Inr s' \<Longrightarrow> lastDragged s' = lastDragged s"
proof (induction objs arbitrary: s)
  case Nil
  then show ?case by simp
next
  case (Cons a objs)
  then obtain s1 where 1: "draw a s = Inr s1" and 2: "draw_each objs s1 = Inr s'"
    by (auto split: sum.splits)
  from Cons.IH[OF 2] draw_lastDragged[OF 1] show ?case by simp
qed

lemma tick_lastDragged: "tick s = Inr s' \<Longrightarrow> lastDragged s' = lastDragged s"
  unfolding tick_def by (rule draw_each_lastDragged)

lemma card_target:
  assumes "constructor_name a0 = TCard"
  shows "\<exists>c. a0 = CardRef c"
  using assms by (cases a0) simp_all

lemma fresh_ids_sub:
  assumes "fresh_ids s" "set (allObjects s') \<subseteq> set (allObjects s)" "nextId s \<le> nextId s'"
  shows "fresh_ids s'"
  unfolding fresh_ids_def
proof
  fix r assume "r \<in> set (allObjects s')"
  with assms(1,2) have "case r of CardRef c \<Rightarrow> True | StackRef i \<Rightarrow> i < nextId s | PileRef i \<Rightarrow> i < nextId s"
    by (auto simp: fresh_ids_def)
  with assms(3) show "case r of CardRef c \<Rightarrow> True | StackRef i \<Rightarrow> i < nextId s' | PileRef i \<Rightarrow> i < nextId s'"
    by (cases r) simp_all
qed

lemma fresh_not_in:
  assumes "fresh_ids s"
  shows "StackRef (nextId s) \<notin> set (allObjects s)" "PileRef (nextId s) \<notin> set (allObjects s)"
  using assms by (auto simp: fresh_ids_def)

text \<open>The three ways of dropping a card leave a well-owned registry.\<close>

lemma drop_inv:
  assumes inv: "inv s" and dr: "dragging s = Some d" and ov: "over d = Some ov"
  shows "\<exists>s2. (case ov of PileRef i \<Rightarrow> drop_on_pile i s | StackRef i \<Rightarrow> drop_on_stack i d s
                 | CardRef i \<Rightarrow> drop_on_card i d s) = Inr s2
           \<and> ownership s2 \<and> fresh_ids s2 \<and> no_lastOutline s2
           \<and> mset (allCards s2) = mset (allCards s) \<and> lastDragged s2 = lastDragged s"
proof -
  from inv have own: "ownership s" and fresh: "fresh_ids s" and nlo: "no_lastOutline s"
    and sess: "session_ok s"
    by (simp_all add: inv_def)
  from sess dr obtain a0 rest where objs0: "allObjects s = a0 # rest"
    and obj0: "object d = a0" and ty: "type_d d = constructor_name a0" and hov: "hover_ok s d"
    by (auto simp: session_ok_def split: list.splits)
  from hover_index[OF hov ov objs0] obtain k where tc: "type_d d = TCard"
    and k: "overIndex d = Some (int k)" "0 < k" "k \<le> length rest" "rest ! (k - 1) = ov"
    by blast
  from tc ty card_target[of a0] obtain c where a0: "a0 = CardRef c" by auto
  note objs = objs0[unfolded a0] and obj = obj0[unfolded a0]
  from k have ovmem: "ov \<in> set rest"
    by (metis One_nat_def Suc_pred less_eq_Suc_le nth_mem)
  show ?thesis
  proof (cases ov)
    case (PileRef i)
    define s2 where "s2 = s\<lparr>pileHeap := (pileHeap s)(i := (pileHeap s i)\<lparr>items := c # items (pileHeap s i)\<rparr>),
            allObjects := rest\<rparr>"
    have run: "drop_on_pile i s = Inr s2"
      by (simp add: drop_on_pile_closed[OF objs] s2_def)
    have others: "members s2 r = members s r" if "r \<noteq> PileRef i" for r
      using that by (cases r) (simp_all add: s2_def)
    have "ownership s2 \<and> mset (allCards s2) = mset (allCards s)"
      by (rule insertion_ownership[OF own objs ovmem[unfolded PileRef] _ _ others])
         (simp_all add: s2_def)
    moreover have "fresh_ids s2"
      by (rule fresh_ids_sub[OF fresh]) (auto simp: s2_def objs)
    moreover have "no_lastOutline s2"
      using nlo by (auto simp: no_lastOutline_def s2_def objs split: ref.splits)
    ultimately show ?thesis using run PileRef by (simp add: s2_def)
  next
    case (StackRef i)
    define start where "start = (case rawIndex s i (x_d d) (y_d d) of None \<Rightarrow> None
        | Some n \<Rightarrow> if n > int (length (items (stackHeap s i)))
            then Some (int (length (items (stackHeap s i)))) else Some n)"
    define st1 where "st1 = (stackHeap s i)\<lparr>items := splice_insert (items (stackHeap s i)) start c\<rparr>"
    define st2 where "st2 = (if lastOutline st1 then st1\<lparr>outlineIndex := IdxFalse, lastOutline := False\<rparr> else st1)"
    define sA where "sA = s\<lparr>stackHeap := (stackHeap s)(i := st2), allObjects := rest\<rparr>"
    have run: "drop_on_stack i d s = tick sA"
      by (simp add: drop_on_stack_def objs Let_def sA_def st2_def st1_def start_def)
    have items2: "items st2 = splice_insert (items (stackHeap s i)) start c"
      by (simp add: st2_def st1_def)
    have lo2: "\<not> lastOutline st2"
      by (simp add: st2_def)
    have others: "members sA r = members s r" if "r \<noteq> StackRef i" for r
      using that by (cases r) (simp_all add: sA_def)
    have ownA: "ownership sA \<and> mset (allCards sA) = mset (allCards s)"
      by (rule insertion_ownership[OF own objs ovmem[unfolded StackRef] _ _ others])
         (simp_all add: sA_def items2)
    have freshA: "fresh_ids sA"
      by (rule fresh_ids_sub[OF fresh]) (auto simp: sA_def objs)
    have nloA: "no_lastOutline sA"
      using nlo lo2 by (auto simp: no_lastOutline_def sA_def objs split: ref.splits)
    from tick_ok[OF no_lastOutline_safe[OF nloA]] obtain sB where sB: "tick sA = Inr sB"
      by blast
    note stB = tick_struct[OF sB]
    have "lastDragged sB = lastDragged sA"
      by (rule tick_lastDragged[OF sB])
    with ownA freshA tick_no_lastOutline[OF sB] sB run StackRef show ?thesis
      by (simp add: ownership_struct[OF stB] fresh_ids_struct[OF stB] allCards_struct[OF stB] sA_def)
  next
    case (CardRef i)
    define b where "b = band (get_x s (object d) - x_c (cardHeap s i))
        (get_y s (object d) - y_c (cardHeap s i)) (Card_height (cardHeap s i))"
    have run: "drop_on_card i d s = merge_cards b i d s"
      by (simp add: drop_on_card_def Let_def b_def)
    note kk = k(1-3) k(4)[unfolded CardRef]
    show ?thesis
    proof (cases b)
      case NoOutline
      with run inv CardRef show ?thesis
        by (simp add: merge_cards_def inv_def)
    next
      case StackOutline
      define n where "n = nextId s"
      define s2 where "s2 = s\<lparr>stackHeap := (stackHeap s)(n :=
                 (new_Stack (x_c (cardHeap s i)) (y_c (cardHeap s i)) [i, c])
                   \<lparr>direction := direction (cardHeap s i), flipped := flipped (cardHeap s i)\<rparr>),
            nextId := Suc n,
            allObjects := StackRef n # take (k - 1) rest @ drop k rest\<rparr>"
      have run2: "merge_cards b i d s = Inr s2"
        unfolding StackOutline using merge_cards_stack[OF objs obj kk, of i] by (simp add: s2_def n_def)
      from fresh_not_in[OF fresh] have nin: "StackRef n \<notin> set rest"
        by (simp add: n_def objs)
      have others: "members s2 r = members s r" if "r \<in> set rest" for r
      proof -
        from that nin have "r \<noteq> StackRef n" by auto
        then show ?thesis by (cases r) (simp_all add: s2_def)
      qed
      have "ownership s2 \<and> mset (allCards s2) = mset (allCards s)"
        by (rule merge_ownership[OF own objs kk(2-4) _ _ nin others])
           (simp_all add: s2_def new_Stack_def)
      moreover have "fresh_ids s2"
        using fresh by (auto simp: fresh_ids_def s2_def objs n_def split: ref.splits
            dest!: in_set_takeD in_set_dropD)
      moreover have "no_lastOutline s2"
        using nlo nin by (auto simp: no_lastOutline_def s2_def objs new_Stack_def split: ref.splits
            dest!: in_set_takeD in_set_dropD)
      ultimately show ?thesis using run run2 CardRef by (simp add: s2_def)
    next
      case PileOutline
      define n where "n = nextId s"
      define s2 where "s2 = s\<lparr>pileHeap := (pileHeap s)(n :=
                 (new_Pile (x_c (cardHeap s i)) (y_c (cardHeap s i)) [i, c])
                   \<lparr>direction := direction (cardHeap s i), flipped := flipped (cardHeap s i)\<rparr>),
            nextId := Suc n,
            allObjects := PileRef n # take (k - 1) rest @ drop k rest\<rparr>"
      have run2: "merge_cards b i d s = Inr s2"
        unfolding PileOutline using merge_cards_pile[OF objs obj kk, of i] by (simp add: s2_def n_def)
      from fresh_not_in[OF fresh] have nin: "PileRef n \<notin> set rest"
        by (simp add: n_def objs)
      have others: "members s2 r = members s r" if "r \<in> set rest" for r
      proof -
        from that nin have "r \<noteq> PileRef n" by auto
        then show ?thesis by (cases r) (simp_all add: s2_def)
      qed
      have "ownership s2 \<and> mset (allCards s2) = mset (allCards s)"
        by (rule merge_ownership[OF own objs kk(2-4) _ _ nin others])
           (simp_all add: s2_def new_Pile_def)
      moreover have "fresh_ids s2"
        using fresh by (auto simp: fresh_ids_def s2_def objs n_def split: ref.splits
            dest!: in_set_takeD in_set_dropD)
      moreover have "no_lastOutline s2"
        using nlo by (auto simp: no_lastOutline_def s2_def objs split: ref.splits
            dest!: in_set_takeD in_set_dropD)
      ultimately show ?thesis using run run2 CardRef by (simp add: s2_def)
    qed
  qed
qed

subsection \<open>The mouseup handler keeps the invariant\<close>

lemma mouseup_inv:
  assumes "inv s"
  shows "\<exists>s'. mouseup s = Inr s' \<and> inv s' \<and> mset (allCards s') = mset (allCards s)
           \<and> dragging s' = None"
proof (cases "dragging s")
  case None
  from assms have parts: "ownership s" "fresh_ids s" "session_ok s" "outline_safe (allObjects s) s"
    by (simp_all add: inv_def no_lastOutline_safe)
  from tick_inv[OF parts] obtain s' where s': "tick s = Inr s'" "inv s'" "struct s' = struct s"
    by blast
  from structD(2)[OF s'(3)] None have "dragging s' = None" by simp
  with s' allCards_struct[OF s'(3)] None show ?thesis
    by (simp add: mouseup_def)
next
  case (Some d)
  define s1 where "s1 = s\<lparr>lastDragged := Some d\<rparr>"
  from assms have inv1: "inv s1" by (simp add: s1_def)
  have dr1: "dragging s1 = Some d" by (simp add: s1_def Some)
  define branch where "branch = (case over d of None \<Rightarrow> Inr s1
      | Some (PileRef i) \<Rightarrow> drop_on_pile i s1
      | Some (StackRef i) \<Rightarrow> drop_on_stack i d s1
      | Some (CardRef i) \<Rightarrow> drop_on_card i d s1)"
  have "\<exists>s2. branch = Inr s2 \<and> ownership s2 \<and> fresh_ids s2 \<and> no_lastOutline s2
          \<and> mset (allCards s2) = mset (allCards s)"
  proof (cases "over d")
    case None
    with inv1 show ?thesis by (simp add: branch_def inv_def s1_def)
  next
    case (Some ov)
    from drop_inv[OF inv1 dr1 Some] Some show ?thesis
      by (auto simp: branch_def s1_def)
  qed
  then obtain s2 where s2: "branch = Inr s2" "ownership s2" "fresh_ids s2" "no_lastOutline s2"
    "mset (allCards s2) = mset (allCards s)"
    by blast
  let ?s3 = "s2\<lparr>dragging := None\<rparr>"
  have parts: "ownership ?s3" "fresh_ids ?s3" "session_ok ?s3" "outline_safe (allObjects ?s3) ?s3"
    using s2 no_lastOutline_safe[of ?s3] by simp_all
  from tick_inv[OF parts] obtain s' where s': "tick ?s3 = Inr s'" "inv s'" "struct s' = struct ?s3"
    by blast
  from structD(2)[OF s'(3)] have "dragging s' = None" by simp
  moreover have "mouseup s = (case branch of Inl ex \<Rightarrow> Inl ex | Inr s2 \<Rightarrow> tick (s2\<lparr>dragging := None\<rparr>))"
    unfolding branch_def s1_def using Some by (simp add: mouseup_def Let_def)
  then have "mouseup s = Inr s'"
    using s2(1) s'(1) by simp
  moreover have "mset (allCards s') = mset (allCards s)"
    using allCards_struct[OF s'(3)] s2(5) by simp
  ultimately show ?thesis using s'(2) by simp
qed

subsection \<open>Every reachable state satisfies the invariant\<close>

lemma reachable_inv: "reachable s \<Longrightarrow> inv s"
proof (induction rule: reachable.induct)
  case (start s)
  then show ?case by (simp add: inv_def session_ok_def)
next
  case (down s e s')
  with mousedown_inv[OF down.IH, of e] show ?case by auto
next
  case (move s e s')
  with mousemove_inv[OF move.IH, of e] show ?case by auto
next
  case (up s s')
  with mouseup_inv[OF up.IH] show ?case by auto
qed

lemma inv_ownership: "inv s \<Longrightarrow> ownership s"
  by (simp add: inv_def)

lemma scene_start:
  "dragging scene = None" "ownership scene" "fresh_ids scene" "no_lastOutline scene"
  by (simp_all add: scene_def ownership_def allCards_def fresh_ids_def no_lastOutline_def
      new_Stack_def new_Pile_def)

lemma reachable_scene: "reachable scene"
  by (rule reachable.start) (rule scene_start)+

subsection \<open>Positions read and written through a reference\<close>

lemma get_x_set_x_same [simp]: "get_x (set_x a v s) a = v"
  by (cases a) simp_all

lemma get_y_set_y_same [simp]: "get_y (set_y a v s) a = v"
  by (cases a) simp_all

lemma get_y_set_x [simp]: "get_y (set_x a v s) r = get_y s r"
  by (cases a; cases r) (simp_all add: first_x_def split: list.splits)

lemma get_x_set_y [simp]: "get_x (set_y a v s) r = get_x s r"
  by (cases a; cases r) (simp_all add: first_y_def split: list.splits)

lemma get_x_set_x_other:
  assumes "r \<noteq> a" "\<And>c. r = CardRef c \<Longrightarrow> c \<notin> set (members s a)"
  shows "get_x (set_x a v s) r = get_x s r"
  using assms by (cases a; cases r) (auto simp: first_x_def split: list.splits)

lemma get_y_set_y_other:
  assumes "r \<noteq> a" "\<And>c. r = CardRef c \<Longrightarrow> c \<notin> set (members s a)"
  shows "get_y (set_y a v s) r = get_y s r"
  using assms by (cases a; cases r) (auto simp: first_y_def split: list.splits)

lemma move_target_moves:
  assumes own: "ownership s" and dr: "dragging s = Some d" and objs: "allObjects s = a0 # rest"
  shows "\<exists>s'. move_target e s = Inr s'
     \<and> (if type_d d = TCard \<or> doubleClick d
         then get_x s' a0 = get_x s a0 + movementX e \<and> get_y s' a0 = get_y s a0 + movementY e
         else s' = s)
     \<and> (\<forall>r \<in> set rest. get_x s' r = get_x s r \<and> get_y s' r = get_y s r)"
proof (cases "type_d d = TCard \<or> doubleClick d")
  case False
  with dr show ?thesis by (simp add: move_target_def)
next
  case True
  define s' where "s' = set_y a0 (get_y s a0 + movementY e) (set_x a0 (get_x s a0 + movementX e) s)"
  have run: "move_target e s = Inr s'"
    using True dr objs by (simp add: move_target_def Let_def s'_def)
  have "get_x s' r = get_x s r \<and> get_y s' r = get_y s r" if r: "r \<in> set rest" for r
  proof -
    from r own objs have ne: "r \<noteq> a0" by (auto simp: ownership_def)
    have notmem: "c \<notin> set (members s a0)" if "r = CardRef c" for c
      using owned_not_standalone[OF own objs, of c] r that by auto
    have "get_x s' r = get_x s r"
      by (simp add: s'_def get_x_set_x_other[OF ne notmem])
    moreover have "get_y s' r = get_y s r"
      unfolding s'_def by (subst get_y_set_y_other[OF ne]) (simp_all add: notmem)
    ultimately show ?thesis by simp
  qed
  with run True show ?thesis by (simp add: s'_def)
qed

text \<open>
  C10. In every reachable state with a session, the session's target is the first object
  of the registry. It still is after the first-move block of mousemove, which may have
  retargeted the session; so the movement that the handler then adds to
  \<open>allObjects[0]\<close> is added to the target (for a Card always, for a group after a
  double click, else nothing moves), and the position of every other registered object
  stays what it was.
\<close>

theorem target_is_topmost:
  assumes "reachable s" "dragging s = Some d"
  shows "(\<exists>rest. allObjects s = object d # rest)
     \<and> (\<exists>s2 d2 rest2.
           first_move e (s\<lparr>dragging := Some (d\<lparr>x_d := clientX e, y_d := clientY e\<rparr>)\<rparr>) = Inr s2
           \<and> dragging s2 = Some d2 \<and> allObjects s2 = object d2 # rest2
           \<and> (\<exists>s3. move_target e s2 = Inr s3
                 \<and> (if type_d d2 = TCard \<or> doubleClick d2
                     then get_x s3 (object d2) = get_x s2 (object d2) + movementX e
                          \<and> get_y s3 (object d2) = get_y s2 (object d2) + movementY e
                     else s3 = s2)
                 \<and> (\<forall>r \<in> set rest2. get_x s3 r = get_x s2 r \<and> get_y s3 r = get_y s2 r)))"
proof -
  note i = reachable_inv[OF assms(1)]
  from i assms(2) have top: "\<exists>rest. allObjects s = object d # rest"
    by (auto simp: inv_def session_ok_def split: list.splits)
  define s1 where "s1 = s\<lparr>dragging := Some (d\<lparr>x_d := clientX e, y_d := clientY e\<rparr>)\<rparr>"
  have "struct (s\<lparr>dragging := Some d\<rparr>) = struct s"
    using assms(2) by (simp add: struct_def)
  then have "session_ok (s\<lparr>dragging := Some d\<rparr>) = session_ok s"
    by (rule session_ok_struct)
  with i have inv1: "inv s1"
    by (simp add: inv_def s1_def session_ok_pointer)
  have d1: "dragging s1 = Some (d\<lparr>x_d := clientX e, y_d := clientY e\<rparr>)"
    by (simp add: s1_def)
  from first_move_inv[OF inv1 d1, of e] obtain s2 d2 where s2: "first_move e s1 = Inr s2" "inv s2"
    "dragging s2 = Some d2"
    by blast
  from s2(2,3) obtain rest2 where objs2: "allObjects s2 = object d2 # rest2"
    by (auto simp: inv_def session_ok_def split: list.splits)
  from s2(2) have own2: "ownership s2" by (simp add: inv_def)
  from move_target_moves[OF own2 s2(3) objs2, of e] s2(1,3) objs2 top show ?thesis
    unfolding s1_def by blast
qed

lemmas geometry_defs = Card_isIn_def Card_cornerX_def Card_cornerY_def Card_width_def Card_height_def
  Stack_isIn_def Stack_cornerX_def Stack_cornerY_def Stack_width_def Stack_height_def
  Pile_isIn_def Pile_cornerX_def Pile_cornerY_def Pile_width_def Pile_height_def
  num_le_def num_ge_def num_add_def num_sub_def Stack_index_def scrubbed_def getSpecCard_def

lemmas scene_defs = scene_def press_def move_by_def mkCard_def img_def new_Stack_def new_Pile_def

lemmas mousedown_defs = mousedown_def flip_on_press_def reverse_group_def isDoubleClick_def
  pressedCard_def pressedCardIndex_def indexOf_def raiseToTop_def tick_def
  Card_draw_def Stack_draw_def Pile_draw_def isSpecCard_def

lemma mousedown_scene: "mousedown (press 630 210 1000) scene = Inr scene_pressed"
  by (simp add: mousedown_defs scene_defs geometry_defs Let_def js_nth_def scene_pressed_def
      pressed_drag_def fun_eq_iff)

lemma reachable_scene_pressed: "reachable scene_pressed"
  by (rule reachable.down[OF reachable_scene mousedown_scene])

theorem target_is_topmost_witness:
  "reachable scene_pressed \<and> dragging scene_pressed = Some pressed_drag
   \<and> (\<exists>rest. allObjects scene_pressed = object pressed_drag # rest)
   \<and> (\<exists>s2 d2 rest2.
         first_move (move_by 635 212 1010 5 2)
           (scene_pressed\<lparr>dragging := Some (pressed_drag\<lparr>x_d := clientX (move_by 635 212 1010 5 2),
              y_d := clientY (move_by 635 212 1010 5 2)\<rparr>)\<rparr>) = Inr s2
         \<and> dragging s2 = Some d2 \<and> allObjects s2 = object d2 # rest2
         \<and> (\<exists>s3. move_target (move_by 635 212 1010 5 2) s2 = Inr s3
               \<and> (if type_d d2 = TCard \<or> doubleClick d2
                   then get_x s3 (object d2) = get_x s2 (object d2) + movementX (move_by 635 212 1010 5 2)
                        \<and> get_y s3 (object d2) = get_y s2 (object d2) + movementY (move_by 635 212 1010 5 2)
                   else s3 = s2)
               \<and> (\<forall>r \<in> set rest2. get_x s3 r = get_x s2 r \<and> get_y s3 r = get_y s2 r)))"
proof -
  have d: "dragging scene_pressed = Some pressed_drag"
    by (simp add: scene_pressed_def)
  from target_is_topmost[OF reachable_scene_pressed d, of "move_by 635 212 1010 5 2"]
    reachable_scene_pressed d
  show ?thesis by simp
qed

subsection \<open>Frames of redraw and hover\<close>

lemma baseD:
  assumes "base g' = base g"
  shows "direction g' = direction g" "flipped g' = flipped g" "items g' = items g"
    "X_g g' = X_g g" "Y_g g' = Y_g g"
  using assms by (simp_all add: base_def)

lemma faceD:
  assumes "face c' = face c"
  shows "direction c' = direction c" "flipped c' = flipped c"
  using assms by (simp_all add: face_def)

lemma placeD:
  assumes "place c' = place c"
  shows "x_c c' = x_c c" "y_c c' = y_c c" "size_c c' = size_c c"
  using assms by (simp_all add: place_def)

subsection \<open>What a redraw leaves alone\<close>

lemma draw_frame:
  assumes "draw a s = Inr s'"
  shows "base (stackHeap s' i) = base (stackHeap s i)"
    and "base (pileHeap s' i) = base (pileHeap s i)"
    and "face (cardHeap s' x) = face (cardHeap s x)"
    and "(\<And>j. a = PileRef j \<Longrightarrow> x \<notin> set (items (pileHeap s j))) \<Longrightarrow>
         place (cardHeap s' x) = place (cardHeap s x)"
proof -
  show "base (stackHeap s' i) = base (stackHeap s i)"
    using assms by (cases a)
      (auto simp: base_def Card_draw_def Stack_draw_def Pile_draw_def Let_def split: if_splits list.splits)
  show "base (pileHeap s' i) = base (pileHeap s i)"
    using assms by (cases a)
      (auto simp: base_def Card_draw_def Stack_draw_def Pile_draw_def Let_def split: if_splits list.splits)
  show "face (cardHeap s' x) = face (cardHeap s x)"
    using assms by (cases a)
      (auto simp: face_def Card_draw_def Stack_draw_def Pile_draw_def Let_def split: if_splits list.splits)
  show "place (cardHeap s' x) = place (cardHeap s x)"
    if "\<And>j. a = PileRef j \<Longrightarrow> x \<notin> set (items (pileHeap s j))"
    using assms that by (cases a)
      (auto simp: place_def Card_draw_def Stack_draw_def Pile_draw_def Let_def split: if_splits list.splits)
qed

lemma draw_each_frame:
  assumes "draw_each objs s = Inr s'"
  shows "base (stackHeap s' i) = base (stackHeap s i)"
    and "base (pileHeap s' i) = base (pileHeap s i)"
    and "face (cardHeap s' x) = face (cardHeap s x)"
    and "(\<And>j. PileRef j \<in> set objs \<Longrightarrow> x \<notin> set (items (pileHeap s j))) \<Longrightarrow>
         place (cardHeap s' x) = place (cardHeap s x)"
  using assms
proof (induction objs arbitrary: s)
  case Nil
  {
    case 1 then show ?case by simp
  next
    case 2 then show ?case by simp
  next
    case 3 then show ?case by simp
  next
    case 4 then show ?case by simp
  }
next
  case (Cons a objs)
  {
    case 1
    then obtain s1 where s1: "draw a s = Inr s1" "draw_each objs s1 = Inr s'"
      by (auto split: sum.splits)
    from Cons.IH(1)[OF s1(2)] draw_frame(1)[OF s1(1)] show ?case by simp
  next
    case 2
    then obtain s1 where s1: "draw a s = Inr s1" "draw_each objs s1 = Inr s'"
      by (auto split: sum.splits)
    from Cons.IH(2)[OF s1(2)] draw_frame(2)[OF s1(1)] show ?case by simp
  next
    case 3
    then obtain s1 where s1: "draw a s = Inr s1" "draw_each objs s1 = Inr s'"
      by (auto split: sum.splits)
    from Cons.IH(3)[OF s1(2)] draw_frame(3)[OF s1(1)] show ?case by simp
  next
    case 4
    then obtain s1 where s1: "draw a s = Inr s1" "draw_each objs s1 = Inr s'"
      by (auto split: sum.splits)
    have a: "place (cardHeap s1 x) = place (cardHeap s x)"
      by (rule draw_frame(4)[OF s1(1)]) (simp add: 4(1))
    have "place (cardHeap s' x) = place (cardHeap s1 x)"
    proof (rule Cons.IH(4)[OF _ s1(2)])
      fix j assume "PileRef j \<in> set objs"
      with 4(1)[of j] baseD(3)[OF draw_frame(2)[OF s1(1)], of j]
      show "x \<notin> set (items (pileHeap s1 j))" by simp
    qed
    with a show ?case by simp
  }
qed

lemma tick_frame:
  assumes "tick s = Inr s'"
  shows "base (stackHeap s' i) = base (stackHeap s i)"
    and "base (pileHeap s' i) = base (pileHeap s i)"
    and "face (cardHeap s' x) = face (cardHeap s x)"
    and "(\<And>j. PileRef j \<in> set (allObjects s) \<Longrightarrow> x \<notin> set (items (pileHeap s j))) \<Longrightarrow>
         place (cardHeap s' x) = place (cardHeap s x)"
  using draw_each_frame[OF assms[unfolded tick_def]] by simp_all

text \<open>A card that stands in the registry is a member of no registered Pile.\<close>

lemma standalone_not_in_pile:
  assumes "ownership s" "CardRef x \<in> set (allObjects s)" "PileRef j \<in> set (allObjects s)"
  shows "x \<notin> set (items (pileHeap s j))"
proof
  assume mem: "x \<in> set (items (pileHeap s j))"
  from assms(3) obtain pre post where split: "allObjects s = pre @ PileRef j # post"
    by (auto dest: split_list)
  with assms(2) have "CardRef x \<in> set pre \<or> CardRef x \<in> set post" by auto
  then have "x \<in> set (concat (map (members s) pre)) \<or> x \<in> set (concat (map (members s) post))"
    by (force simp: image_iff)
  with assms(1) mem split show False
    by (auto simp: ownership_def allCards_def)
qed

lemma tick_standalone:
  assumes "tick s = Inr s'" "ownership s" "CardRef x \<in> set (allObjects s)"
  shows "place (cardHeap s' x) = place (cardHeap s x)"
  by (rule tick_frame(4)[OF assms(1)]) (rule standalone_not_in_pile[OF assms(2,3)])

subsection \<open>What marking leaves alone\<close>

lemma hover_fields:
  "base (stackHeap (hover e s) i) = base (stackHeap s i)"
  "base (pileHeap (hover e s) i) = base (pileHeap s i)"
  "face (cardHeap (hover e s) x) = face (cardHeap s x)"
  "place (cardHeap (hover e s) x) = place (cardHeap s x)"
  by (simp_all add: hover_def Let_def mark_stack_def mark_card_def base_def face_def place_def
      split: option.splits ref.splits outline.splits)

subsection \<open>The rest of mousemove, for a Card target\<close>

lemma finish_move:
  assumes inv2: "inv s2" and dr2: "dragging s2 = Some d2" and ty: "type_d d2 = TCard"
  shows "\<exists>c rest s' d'. allObjects s2 = CardRef c # rest \<and> object d2 = CardRef c
     \<and> (case move_target e s2 of Inl ex \<Rightarrow> Inl ex | Inr s3 \<Rightarrow> tick (hover e s3)) = Inr s'
     \<and> allObjects s' = allObjects s2
     \<and> dragging s' = Some d' \<and> object d' = CardRef c \<and> type_d d' = TCard
     \<and> (\<forall>i. base (stackHeap s' i) = base (stackHeap s2 i))
     \<and> (\<forall>i. base (pileHeap s' i) = base (pileHeap s2 i))
     \<and> (\<forall>x. face (cardHeap s' x) = face (cardHeap s2 x))
     \<and> x_c (cardHeap s' c) = x_c (cardHeap s2 c) + movementX e
     \<and> y_c (cardHeap s' c) = y_c (cardHeap s2 c) + movementY e
     \<and> (\<forall>x. CardRef x \<in> set rest \<longrightarrow> place (cardHeap s' x) = place (cardHeap s2 x))"
proof -
  from inv2 dr2 obtain a0 rest where objs0: "allObjects s2 = a0 # rest"
    and obj0: "object d2 = a0" and ty0: "type_d d2 = constructor_name a0"
    by (auto simp: inv_def session_ok_def split: list.splits)
  from ty ty0 card_target[of a0] obtain c where a0: "a0 = CardRef c" by auto
  note objs = objs0[unfolded a0] and obj = obj0[unfolded a0]
  define s3 where "s3 = s2\<lparr>cardHeap := (cardHeap s2)(c := (cardHeap s2 c)\<lparr>x_c := x_c (cardHeap s2 c) + movementX e,
      y_c := y_c (cardHeap s2 c) + movementY e\<rparr>)\<rparr>"
  have mt: "move_target e s2 = Inr s3"
    using dr2 ty objs by (simp add: move_target_def Let_def s3_def)
  have st3: "struct s3 = struct s2" by (simp add: struct_def s3_def)
  have "inv s3 = inv s2" by (rule inv_struct[OF st3]) (simp add: s3_def)
  with inv2 have inv3: "inv s3" by simp
  then have own4: "ownership (hover e s3)" and fresh4: "fresh_ids (hover e s3)"
    and sess4: "session_ok (hover e s3)" and safe4: "outline_safe (allObjects (hover e s3)) (hover e s3)"
    by (simp_all add: inv_def hover_session_ok hover_safe del: hover_frame)
  from tick_inv[OF own4 fresh4 sess4 safe4] obtain s' where s': "tick (hover e s3) = Inr s'"
    "struct s' = struct (hover e s3)"
    by blast
  have objs': "allObjects s' = allObjects s2"
    using structD(1)[OF s'(2)] by (simp add: s3_def)
  have dr3: "dragging s3 = Some d2" by (simp add: s3_def dr2)
  from hover_dragging[OF dr3, of e] structD(2)[OF s'(2)] ty obj
  obtain d' where d': "dragging s' = Some d'" "object d' = CardRef c" "type_d d' = TCard"
    by simp
  have b1: "base (stackHeap s' i) = base (stackHeap s2 i)" for i
    using tick_frame(1)[OF s'(1), of i] hover_fields(1)[of e s3 i] by (simp add: s3_def)
  have b2: "base (pileHeap s' i) = base (pileHeap s2 i)" for i
    using tick_frame(2)[OF s'(1), of i] hover_fields(2)[of e s3 i] by (simp add: s3_def)
  have f: "face (cardHeap s' x) = face (cardHeap s2 x)" for x
    using tick_frame(3)[OF s'(1), of x] hover_fields(3)[of e s3 x] by (simp add: s3_def face_def)
  have pl: "place (cardHeap s' x) = place (cardHeap s3 x)" if "CardRef x \<in> set (allObjects s2)" for x
  proof -
    from that have "CardRef x \<in> set (allObjects (hover e s3))" by (simp add: s3_def)
    from tick_standalone[OF s'(1) own4 this] hover_fields(4)[of e s3 x] show ?thesis by simp
  qed
  from pl[of c] have "x_c (cardHeap s' c) = x_c (cardHeap s2 c) + movementX e"
    "y_c (cardHeap s' c) = y_c (cardHeap s2 c) + movementY e"
    by (simp_all add: objs place_def s3_def)
  moreover have "place (cardHeap s' x) = place (cardHeap s2 x)" if "CardRef x \<in> set rest" for x
  proof -
    from inv2 objs that have "x \<noteq> c" by (auto simp: inv_def ownership_def)
    with pl[of x] that show ?thesis by (simp add: objs s3_def)
  qed
  ultimately show ?thesis
    using objs obj mt s'(1) objs' d' b1 b2 f by simp
qed

lemma pointer_inv:
  assumes "inv s" "dragging s = Some d"
  shows "inv (s\<lparr>dragging := Some (d\<lparr>x_d := a, y_d := b\<rparr>)\<rparr>)"
proof -
  have "struct (s\<lparr>dragging := Some d\<rparr>) = struct s"
    using assms(2) by (simp add: struct_def)
  then have "session_ok (s\<lparr>dragging := Some d\<rparr>) = session_ok s"
    by (rule session_ok_struct)
  with assms(1) show ?thesis
    by (simp add: inv_def session_ok_pointer)
qed

lemma mousemove_split:
  assumes "dragging s = Some d"
    "first_move e (s\<lparr>dragging := Some (d\<lparr>x_d := clientX e, y_d := clientY e\<rparr>)\<rparr>) = Inr s2"
  shows "mousemove e s = (case move_target e s2 of Inl ex \<Rightarrow> Inl ex | Inr s3 \<Rightarrow> tick (hover e s3))"
  using assms by (simp add: mousemove_def Let_def)

text \<open>The first move of a single-click session on a Stack, block by block.\<close>

lemma stack_first_move:
  fixes e :: MouseEvent and s :: state
  assumes inv: "inv s" and dr: "dragging s = Some d" and obj: "object d = StackRef j"
    and dc: "\<not> doubleClick d" and dy: "\<not> draggedYet d"
  defines "st \<equiv> stackHeap s j"
  defines "s1 \<equiv> s\<lparr>dragging := Some (d\<lparr>x_d := clientX e, y_d := clientY e\<rparr>)\<rparr>"
  shows "\<exists>k c rest s2. specCardIndex d = Some (int k) \<and> k < length (items st) \<and> c = items st ! k
     \<and> specCard d = Some c \<and> allObjects s = StackRef j # rest
     \<and> first_move e s1 = Inr s2 \<and> inv s2
     \<and> allObjects s2 = CardRef c # (case take k (items st) @ drop (Suc k) (items st) of
                                       [m] \<Rightarrow> CardRef m | _ \<Rightarrow> StackRef j) # rest
     \<and> dragging s2 = Some (retarget e (CardRef c))
     \<and> stackHeap s2 = (stackHeap s)(j := st\<lparr>items := take k (items st) @ drop (Suc k) (items st)\<rparr>)
     \<and> pileHeap s2 = pileHeap s
     \<and> flipped (cardHeap s2 c) = flipped st \<and> direction (cardHeap s2 c) = direction st
     \<and> (direction st = Forward \<longrightarrow>
           x_c (cardHeap s2 c) = X_g st + real k * 22.5 \<and> y_c (cardHeap s2 c) = Y_g st)
     \<and> (direction st = Clockwise90 \<longrightarrow>
           x_c (cardHeap s2 c) = X_g st \<and> y_c (cardHeap s2 c) = Y_g st + real k * 22.5)
     \<and> (direction st = Turned180 \<longrightarrow>
           x_c (cardHeap s2 c) = X_g st - real k * 22.5 \<and> y_c (cardHeap s2 c) = Y_g st)
     \<and> (direction st = Clockwise270 \<longrightarrow>
           x_c (cardHeap s2 c) = X_g st \<and> y_c (cardHeap s2 c) = Y_g st - real k * 22.5)
     \<and> (\<forall>m. take k (items st) @ drop (Suc k) (items st) = [m] \<longrightarrow>
           flipped (cardHeap s2 m) = flipped st \<and> direction (cardHeap s2 m) = direction st
           \<and> x_c (cardHeap s2 m) = X_g st \<and> y_c (cardHeap s2 m) = Y_g st)"
proof -
  from inv dr obtain a0 rest where objs0: "allObjects s = a0 # rest"
    and obj0: "object d = a0" and press0: "draggedYet d \<or> press_ok s d a0"
    by (auto simp: inv_def session_ok_def split: list.splits)
  from obj obj0 have a0: "a0 = StackRef j" by simp
  note objs = objs0[unfolded a0]
  from press0 dy a0 obtain kk where kk: "specCardIndex d = Some kk" "0 \<le> kk"
    "kk < int (length (items (stackHeap s j)))" "specCard d = js_nth (items (stackHeap s j)) kk"
    by (auto simp: press_ok_def split: option.splits)
  define k where "k = nat kk"
  from kk have k: "kk = int k" "k < length (items st)"
    by (simp_all add: k_def st_def)
  define c where "c = items st ! k"
  from kk(4) k have sc: "specCard d = Some c"
    by (simp add: c_def st_def)
  have inv1: "inv s1" unfolding s1_def by (rule pointer_inv[OF inv dr])
  let ?d1 = "d\<lparr>x_d := clientX e, y_d := clientY e\<rparr>"
  have dr1: "dragging s1 = Some ?d1" by (simp add: s1_def)
  have objs1: "allObjects s1 = StackRef j # rest" by (simp add: s1_def objs)
  have st1: "stackHeap s1 j = st" by (simp add: s1_def st_def)
  have mem: "StackRef j \<in> set (allObjects s)" by (simp add: objs)
  from inv have own: "ownership s" by (simp add: inv_def)
  from ownership_members_distinct[OF own mem] have dist: "distinct (items (stackHeap s1 j))"
    by (simp add: s1_def)
  have d1: "object ?d1 = StackRef j" "specCardIndex ?d1 = Some kk" "0 \<le> kk"
    "kk < int (length (items (stackHeap s1 j)))"
    using obj kk by (simp_all add: s1_def)
  from extract_stack_facts[OF objs1 d1 dist, of e, unfolded st1]
  obtain s5 where s5: "extract_stack e ?d1 s1 = Inr s5"
    "allObjects s5 = CardRef c # (case take k (items st) @ drop (Suc k) (items st) of
                                       [m] \<Rightarrow> CardRef m | _ \<Rightarrow> StackRef j) # rest"
    "dragging s5 = Some (retarget e (CardRef c))"
    "stackHeap s5 = (stackHeap s1)(j := st\<lparr>items := take k (items st) @ drop (Suc k) (items st)\<rparr>)"
    "pileHeap s5 = pileHeap s1"
    "flipped (cardHeap s5 c) = flipped st" "direction (cardHeap s5 c) = direction st"
    "direction st = Forward \<longrightarrow>
           x_c (cardHeap s5 c) = X_g st + real_of_int kk * 22.5 \<and> y_c (cardHeap s5 c) = Y_g st"
    "direction st = Clockwise90 \<longrightarrow>
           x_c (cardHeap s5 c) = X_g st \<and> y_c (cardHeap s5 c) = Y_g st + real_of_int kk * 22.5"
    "direction st = Turned180 \<longrightarrow>
           x_c (cardHeap s5 c) = X_g st - real_of_int kk * 22.5 \<and> y_c (cardHeap s5 c) = Y_g st"
    "direction st = Clockwise270 \<longrightarrow>
           x_c (cardHeap s5 c) = X_g st \<and> y_c (cardHeap s5 c) = Y_g st - real_of_int kk * 22.5"
    "\<forall>m. take k (items st) @ drop (Suc k) (items st) = [m] \<longrightarrow>
           flipped (cardHeap s5 m) = flipped st \<and> direction (cardHeap s5 m) = direction st
           \<and> x_c (cardHeap s5 m) = X_g st \<and> y_c (cardHeap s5 m) = Y_g st"
    unfolding k_def[symmetric] c_def[symmetric] by blast
  define s2 where "s2 = set_draggedYet s5"
  have eq2: "s2 = s5\<lparr>dragging := Some (retarget e (CardRef c))\<rparr>"
    by (simp add: s2_def set_draggedYet_def s5(3) retarget_def)
  from inv1 dr1 obj have ty1: "type_d ?d1 = TStack"
    by (auto simp: inv_def session_ok_def split: list.splits)
  have fm: "first_move e s1 = Inr s2"
    using dr1 ty1 dc dy s5(1) by (simp add: first_move_def s2_def)
  from first_move_inv[OF inv1 dr1, of e] fm have inv2: "inv s2" by auto
  have ki: "specCardIndex d = Some (int k)" using kk(1) k(1) by simp
  have fm': "first_move e s1 = Inr s2 \<and> inv s2" using fm inv2 by simp
  have rest2: "allObjects s2 = allObjects s5" "dragging s2 = dragging s5"
    "stackHeap s2 = stackHeap s5" "pileHeap s2 = pileHeap s5" "cardHeap s2 = cardHeap s5"
    by (simp_all add: eq2 s5(3))
  have h1: "stackHeap s1 = stackHeap s" "pileHeap s1 = pileHeap s" by (simp_all add: s1_def)
  show ?thesis
    apply (rule exI[of _ k], rule exI[of _ c], rule exI[of _ rest], rule exI[of _ s2])
    using ki k(2) c_def sc objs fm' s5(2-) unfolding rest2 h1 k(1)
    by simp
qed

subsection \<open>Extraction from a Pile, and a group left with one card\<close>

lemma pile_first_move:
  fixes e :: MouseEvent and s :: state
  assumes inv: "inv s" and dr: "dragging s = Some d" and obj: "object d = PileRef j"
    and dc: "\<not> doubleClick d" and dy: "\<not> draggedYet d"
  defines "p \<equiv> pileHeap s j"
  defines "s1 \<equiv> s\<lparr>dragging := Some (d\<lparr>x_d := clientX e, y_d := clientY e\<rparr>)\<rparr>"
  shows "\<exists>c left rest s2. items p = c # left \<and> allObjects s = PileRef j # rest
     \<and> first_move e s1 = Inr s2 \<and> inv s2
     \<and> allObjects s2 = CardRef c # (case left of [m] \<Rightarrow> CardRef m | _ \<Rightarrow> PileRef j) # rest
     \<and> dragging s2 = Some (retarget e (CardRef c))
     \<and> pileHeap s2 = (pileHeap s)(j := p\<lparr>items := left\<rparr>)
     \<and> stackHeap s2 = stackHeap s
     \<and> flipped (cardHeap s2 c) = flipped p \<and> direction (cardHeap s2 c) = direction p
     \<and> x_c (cardHeap s2 c) = x_c (cardHeap s c) \<and> y_c (cardHeap s2 c) = y_c (cardHeap s c)
     \<and> (\<forall>m. left = [m] \<longrightarrow>
           flipped (cardHeap s2 m) = flipped p \<and> direction (cardHeap s2 m) = direction p
           \<and> x_c (cardHeap s2 m) = X_g p - 2 \<and> y_c (cardHeap s2 m) = Y_g p - 2)"
proof -
  from inv dr obtain a0 rest where objs0: "allObjects s = a0 # rest"
    and obj0: "object d = a0" and press0: "draggedYet d \<or> press_ok s d a0"
    by (auto simp: inv_def session_ok_def split: list.splits)
  from obj obj0 have a0: "a0 = PileRef j" by simp
  note objs = objs0[unfolded a0]
  from press0 dy a0 have "items p \<noteq> []"
    by (simp add: press_ok_def p_def)
  then obtain c left where its: "items p = c # left" by (cases "items p") auto
  have inv1: "inv s1" unfolding s1_def by (rule pointer_inv[OF inv dr])
  let ?d1 = "d\<lparr>x_d := clientX e, y_d := clientY e\<rparr>"
  have dr1: "dragging s1 = Some ?d1" by (simp add: s1_def)
  have objs1: "allObjects s1 = PileRef j # rest" by (simp add: s1_def objs)
  have p1: "pileHeap s1 j = p" by (simp add: s1_def p_def)
  have its1: "items (pileHeap s1 j) = c # left" by (simp add: p1 its)
  have mem: "PileRef j \<in> set (allObjects s)" by (simp add: objs)
  from inv have own: "ownership s" by (simp add: inv_def)
  from ownership_members_distinct[OF own mem] have dist: "distinct (items (pileHeap s1 j))"
    by (simp add: s1_def)
  have d1: "object ?d1 = PileRef j" using obj by simp
  from extract_pile_facts[OF objs1 d1 its1 dist, of e, unfolded p1]
  obtain s5 where s5: "extract_pile e ?d1 s1 = Inr s5"
    "allObjects s5 = CardRef c # (case left of [m] \<Rightarrow> CardRef m | _ \<Rightarrow> PileRef j) # rest"
    "dragging s5 = Some (retarget e (CardRef c))"
    "pileHeap s5 = (pileHeap s1)(j := p\<lparr>items := left\<rparr>)"
    "stackHeap s5 = stackHeap s1"
    "flipped (cardHeap s5 c) = flipped p" "direction (cardHeap s5 c) = direction p"
    "x_c (cardHeap s5 c) = x_c (cardHeap s1 c)" "y_c (cardHeap s5 c) = y_c (cardHeap s1 c)"
    "\<forall>m. left = [m] \<longrightarrow>
           flipped (cardHeap s5 m) = flipped p \<and> direction (cardHeap s5 m) = direction p
           \<and> x_c (cardHeap s5 m) = X_g p - 2 \<and> y_c (cardHeap s5 m) = Y_g p - 2"
    by blast
  define s2 where "s2 = set_draggedYet s5"
  have eq2: "s2 = s5\<lparr>dragging := Some (retarget e (CardRef c))\<rparr>"
    by (simp add: s2_def set_draggedYet_def s5(3) retarget_def)
  from inv1 dr1 obj have ty1: "type_d ?d1 = TPile"
    by (auto simp: inv_def session_ok_def split: list.splits)
  have fm: "first_move e s1 = Inr s2"
    using dr1 ty1 dc dy s5(1) by (simp add: first_move_def s2_def)
  from first_move_inv[OF inv1 dr1, of e] fm have inv2: "inv s2" by auto
  have fm': "first_move e s1 = Inr s2 \<and> inv s2" using fm inv2 by simp
  have rest2: "allObjects s2 = allObjects s5" "dragging s2 = dragging s5"
    "stackHeap s2 = stackHeap s5" "pileHeap s2 = pileHeap s5" "cardHeap s2 = cardHeap s5"
    by (simp_all add: eq2 s5(3))
  have h1: "stackHeap s1 = stackHeap s" "pileHeap s1 = pileHeap s" "cardHeap s1 = cardHeap s"
    by (simp_all add: s1_def)
  show ?thesis
    apply (rule exI[of _ c], rule exI[of _ left], rule exI[of _ rest], rule exI[of _ s2])
    using its objs fm' s5(2-) unfolding rest2 h1
    by simp
qed

lemma two_left:
  assumes "length xs = 2" "k < length xs"
  shows "\<exists>m. take k xs @ drop (Suc k) xs = [m] \<and> mset [xs ! k, m] = mset xs"
proof -
  from assms(1) obtain a b where xs: "xs = [a, b]"
    by (cases xs; cases "tl xs") auto
  from assms(2) xs have "k = 0 \<or> k = 1" by auto
  then show ?thesis using xs by auto
qed

text \<open>The rest of the handler leaves the card that took the group's place alone.\<close>

lemma finish_move_second:
  fixes e :: MouseEvent
  assumes inv2: "inv s2" and dr2: "dragging s2 = Some (retarget e (CardRef c))"
    and objs2: "allObjects s2 = CardRef c # CardRef m # rest"
    and fm: "first_move e (s\<lparr>dragging := Some (d\<lparr>x_d := clientX e, y_d := clientY e\<rparr>)\<rparr>) = Inr s2"
    and dr: "dragging s = Some d"
  shows "\<exists>s'. mousemove e s = Inr s' \<and> allObjects s' = allObjects s2
     \<and> flipped (cardHeap s' m) = flipped (cardHeap s2 m)
     \<and> direction (cardHeap s' m) = direction (cardHeap s2 m)
     \<and> x_c (cardHeap s' m) = x_c (cardHeap s2 m)
     \<and> y_c (cardHeap s' m) = y_c (cardHeap s2 m)"
proof -
  have ty2: "type_d (retarget e (CardRef c)) = TCard" by (simp add: retarget_def)
  from finish_move[OF inv2 dr2 ty2, of e]
  obtain s' where g:
    "(case move_target e s2 of Inl ex \<Rightarrow> Inl ex | Inr s3 \<Rightarrow> tick (hover e s3)) = Inr s'"
    "allObjects s' = allObjects s2"
    "\<forall>x. face (cardHeap s' x) = face (cardHeap s2 x)"
    "\<forall>x. CardRef x \<in> set (CardRef m # rest) \<longrightarrow> place (cardHeap s' x) = place (cardHeap s2 x)"
    using objs2 by auto
  have mm: "mousemove e s = Inr s'"
    using mousemove_split[OF dr fm] g(1) by simp
  from g(4) have pl: "place (cardHeap s' m) = place (cardHeap s2 m)" by simp
  from mm g(2) faceD[OF g(3)[rule_format, of m]] placeD(1,2)[OF pl]
  show ?thesis by simp
qed

lemma stack_degenerates:
  fixes e :: MouseEvent and s :: state
  assumes inv: "inv s" and dr: "dragging s = Some d" and obj: "object d = StackRef j"
    and dc: "\<not> doubleClick d" and dy: "\<not> draggedYet d"
    and two: "length (items (stackHeap s j)) = 2"
  shows "\<exists>c m rest s2 s'. allObjects s = StackRef j # rest
     \<and> first_move e (s\<lparr>dragging := Some (d\<lparr>x_d := clientX e, y_d := clientY e\<rparr>)\<rparr>) = Inr s2
     \<and> allObjects s2 = CardRef c # CardRef m # rest
     \<and> StackRef j \<notin> set (allObjects s2)
     \<and> specCard d = Some c
     \<and> mset [c, m] = mset (items (stackHeap s j))
     \<and> flipped (cardHeap s2 m) = flipped (stackHeap s j)
     \<and> direction (cardHeap s2 m) = direction (stackHeap s j)
     \<and> x_c (cardHeap s2 m) = X_g (stackHeap s j)
     \<and> y_c (cardHeap s2 m) = Y_g (stackHeap s j)
     \<and> mousemove e s = Inr s' \<and> allObjects s' = allObjects s2
     \<and> flipped (cardHeap s' m) = flipped (cardHeap s2 m)
     \<and> direction (cardHeap s' m) = direction (cardHeap s2 m)
     \<and> x_c (cardHeap s' m) = x_c (cardHeap s2 m)
     \<and> y_c (cardHeap s' m) = y_c (cardHeap s2 m)"
proof -
  define st where "st = stackHeap s j"
  define s1 where "s1 = s\<lparr>dragging := Some (d\<lparr>x_d := clientX e, y_d := clientY e\<rparr>)\<rparr>"
  from stack_first_move[OF inv dr obj dc dy, of e, folded st_def s1_def]
  obtain k c rest s2 where f:
    "k < length (items st)" "c = items st ! k" "specCard d = Some c"
    "allObjects s = StackRef j # rest"
    "first_move e s1 = Inr s2" "inv s2"
    "allObjects s2 = CardRef c # (case take k (items st) @ drop (Suc k) (items st) of
                                       [m] \<Rightarrow> CardRef m | _ \<Rightarrow> StackRef j) # rest"
    "dragging s2 = Some (retarget e (CardRef c))"
    "\<forall>m. take k (items st) @ drop (Suc k) (items st) = [m] \<longrightarrow>
           flipped (cardHeap s2 m) = flipped st \<and> direction (cardHeap s2 m) = direction st
           \<and> x_c (cardHeap s2 m) = X_g st \<and> y_c (cardHeap s2 m) = Y_g st"
    by blast
  from two_left[OF two[folded st_def] f(1)] obtain m where
    m: "take k (items st) @ drop (Suc k) (items st) = [m]" "mset [c, m] = mset (items st)"
    unfolding f(2) by blast
  have objs2: "allObjects s2 = CardRef c # CardRef m # rest"
    using f(7) m(1) by simp
  from inv have "distinct (allObjects s)" by (simp add: inv_def ownership_def)
  with f(4) have gone: "StackRef j \<notin> set (allObjects s2)" by (simp add: objs2)
  from finish_move_second[OF f(6) f(8) objs2 f(5)[unfolded s1_def] dr]
  obtain s' where g: "mousemove e s = Inr s'" "allObjects s' = allObjects s2"
     "flipped (cardHeap s' m) = flipped (cardHeap s2 m)"
     "direction (cardHeap s' m) = direction (cardHeap s2 m)"
     "x_c (cardHeap s' m) = x_c (cardHeap s2 m)"
     "y_c (cardHeap s' m) = y_c (cardHeap s2 m)"
    by blast
  show ?thesis
    apply (rule exI[of _ c], rule exI[of _ m], rule exI[of _ rest], rule exI[of _ s2],
        rule exI[of _ s'])
    unfolding st_def[symmetric] s1_def[symmetric]
    using f(3,4,5) objs2 gone m(2) f(9)[rule_format, OF m(1)] g
    by simp
qed

lemma pile_degenerates:
  fixes e :: MouseEvent and s :: state
  assumes inv: "inv s" and dr: "dragging s = Some d" and obj: "object d = PileRef j"
    and dc: "\<not> doubleClick d" and dy: "\<not> draggedYet d"
    and two: "length (items (pileHeap s j)) = 2"
  shows "\<exists>c m rest s2 s'. allObjects s = PileRef j # rest
     \<and> first_move e (s\<lparr>dragging := Some (d\<lparr>x_d := clientX e, y_d := clientY e\<rparr>)\<rparr>) = Inr s2
     \<and> allObjects s2 = CardRef c # CardRef m # rest
     \<and> PileRef j \<notin> set (allObjects s2)
     \<and> items (pileHeap s j) = [c, m]
     \<and> flipped (cardHeap s2 m) = flipped (pileHeap s j)
     \<and> direction (cardHeap s2 m) = direction (pileHeap s j)
     \<and> x_c (cardHeap s2 m) = X_g (pileHeap s j) - 2
     \<and> y_c (cardHeap s2 m) = Y_g (pileHeap s j) - 2
     \<and> mousemove e s = Inr s' \<and> allObjects s' = allObjects s2
     \<and> flipped (cardHeap s' m) = flipped (cardHeap s2 m)
     \<and> direction (cardHeap s' m) = direction (cardHeap s2 m)
     \<and> x_c (cardHeap s' m) = x_c (cardHeap s2 m)
     \<and> y_c (cardHeap s' m) = y_c (cardHeap s2 m)"
proof -
  define p where "p = pileHeap s j"
  define s1 where "s1 = s\<lparr>dragging := Some (d\<lparr>x_d := clientX e, y_d := clientY e\<rparr>)\<rparr>"
  from pile_first_move[OF inv dr obj dc dy, of e, folded p_def s1_def]
  obtain c left rest s2 where f:
    "items p = c # left" "allObjects s = PileRef j # rest"
    "first_move e s1 = Inr s2" "inv s2"
    "allObjects s2 = CardRef c # (case left of [m] \<Rightarrow> CardRef m | _ \<Rightarrow> PileRef j) # rest"
    "dragging s2 = Some (retarget e (CardRef c))"
    "\<forall>m. left = [m] \<longrightarrow>
           flipped (cardHeap s2 m) = flipped p \<and> direction (cardHeap s2 m) = direction p
           \<and> x_c (cardHeap s2 m) = X_g p - 2 \<and> y_c (cardHeap s2 m) = Y_g p - 2"
    by blast
  from two[folded p_def] f(1) obtain m where m: "left = [m]"
    by (cases left) auto
  have objs2: "allObjects s2 = CardRef c # CardRef m # rest"
    using f(5) m by simp
  from inv have "distinct (allObjects s)" by (simp add: inv_def ownership_def)
  with f(2) have gone: "PileRef j \<notin> set (allObjects s2)" by (simp add: objs2)
  from finish_move_second[OF f(4) f(6) objs2 f(3)[unfolded s1_def] dr]
  obtain s' where g: "mousemove e s = Inr s'" "allObjects s' = allObjects s2"
     "flipped (cardHeap s' m) = flipped (cardHeap s2 m)"
     "direction (cardHeap s' m) = direction (cardHeap s2 m)"
     "x_c (cardHeap s' m) = x_c (cardHeap s2 m)"
     "y_c (cardHeap s' m) = y_c (cardHeap s2 m)"
    by blast
  show ?thesis
    apply (rule exI[of _ c], rule exI[of _ m], rule exI[of _ rest], rule exI[of _ s2],
        rule exI[of _ s'])
    unfolding p_def[symmetric] s1_def[symmetric]
    using f(1,2,3) m objs2 gone f(7)[rule_format, OF m] g
    by simp
qed

subsection \<open>The session a press makes and the record a release leaves\<close>



lemma setters_dragging [simp]:
  "dragging (set_x r v s) = dragging s" "dragging (set_y r v s) = dragging s"
  by (cases r; simp)+









subsection \<open>A redraw of a drawn scene changes nothing\<close>

lemma draw_settled:
  assumes "dragging s = None" "settled s a"
  shows "draw a s = Inr s"
proof (cases a)
  case (CardRef c)
  with assms(2) have "(cardHeap s c)\<lparr>outline := NoOutline\<rparr> = cardHeap s c" by simp
  then show ?thesis using CardRef by (simp add: Card_draw_def)
next
  case (StackRef i)
  with assms have "(stackHeap s i)\<lparr>outlineIndex :=
      Stack_draw_forEach (dragging s) (items (stackHeap s i)) 0 (outlineIndex (stackHeap s i))\<rparr>
     = stackHeap s i" by simp
  then show ?thesis using StackRef assms by (simp add: Stack_draw_def Let_def)
next
  case (PileRef i)
  show ?thesis
  proof (cases "items (pileHeap s i)")
    case Nil
    then show ?thesis using PileRef by (simp add: Pile_draw_def)
  next
    case (Cons c0 tl)
    with assms(2) PileRef have
      "(cardHeap s c0)\<lparr>x_c := X_g (pileHeap s i), y_c := Y_g (pileHeap s i), size_c := 0.5\<rparr>
         = cardHeap s c0"
      "(pileHeap s i)\<lparr>isOutline := False\<rparr> = pileHeap s i"
      by simp_all
    then show ?thesis using PileRef Cons by (simp add: Pile_draw_def Let_def)
  qed
qed

lemma draw_each_settled:
  assumes "dragging s = None" "\<forall>a \<in> set objs. settled s a"
  shows "draw_each objs s = Inr s"
  using assms by (induction objs) (simp_all add: draw_settled)

lemma forEach_idle_cases:
  "Stack_draw_forEach None xs b oi = oi \<or> Stack_draw_forEach None xs b oi = IdxFalse"
  by (induction xs arbitrary: b oi) (auto simp: isSpecCard_def)

lemma forEach_idle_False [simp]: "Stack_draw_forEach None xs b IdxFalse = IdxFalse"
  by (induction xs arbitrary: b) (auto simp: isSpecCard_def)

lemma forEach_idle_idem:
  "Stack_draw_forEach None xs b (Stack_draw_forEach None xs b oi) = Stack_draw_forEach None xs b oi"
  using forEach_idle_cases[of xs b oi] by auto

lemma draw_settles:
  assumes "draw a s = Inr s'" "dragging s = None"
  shows "settled s' a"
proof (cases a)
  case (CardRef c)
  with assms show ?thesis by (auto simp: Card_draw_def)
next
  case (StackRef i)
  with assms show ?thesis
    by (auto simp: Stack_draw_def Let_def forEach_idle_idem split: if_splits)
next
  case (PileRef i)
  with assms show ?thesis
    by (auto simp: Pile_draw_def Let_def split: list.splits)
qed

lemma draw_keeps_settled:
  assumes "draw a s = Inr s'" "settled s b" "a \<noteq> b"
    "set (members s a) \<inter> set (members s b) = {}"
  shows "settled s' b"
proof (cases a)
  case (CardRef c)
  with assms show ?thesis
    by (cases b) (auto simp: Card_draw_def split: list.splits)
next
  case (StackRef i)
  with assms show ?thesis
    by (cases b) (auto simp: Stack_draw_def Let_def split: if_splits list.splits)
next
  case (PileRef i)
  with assms show ?thesis
    by (cases b) (auto simp: Pile_draw_def Let_def split: list.splits)
qed

lemma draw_each_keeps_settled:
  assumes "draw_each objs s = Inr s'" "settled s b" "b \<notin> set objs"
    "\<forall>a \<in> set objs. set (members s a) \<inter> set (members s b) = {}"
  shows "settled s' b"
  using assms
proof (induction objs arbitrary: s)
  case Nil
  then show ?case by simp
next
  case (Cons a as)
  from Cons.prems(1) obtain s1 where s1: "draw a s = Inr s1" "draw_each as s1 = Inr s'"
    by (auto split: sum.splits)
  from Cons.prems have "settled s1 b"
    by (intro draw_keeps_settled[OF s1(1)]) auto
  moreover have "members s1 = members s"
    using members_struct[OF draw_struct[OF s1(1)]] by (simp add: fun_eq_iff)
  ultimately show ?case using Cons.prems s1(2) by (intro Cons.IH[of s1]) auto
qed

lemma draw_each_settles:
  assumes "draw_each objs s = Inr s'" "dragging s = None" "distinct objs"
    "\<forall>a \<in> set objs. \<forall>b \<in> set objs. a \<noteq> b \<longrightarrow> set (members s a) \<inter> set (members s b) = {}"
  shows "\<forall>a \<in> set objs. settled s' a"
  using assms
proof (induction objs arbitrary: s)
  case Nil
  then show ?case by simp
next
  case (Cons a as)
  from Cons.prems(1) obtain s1 where s1: "draw a s = Inr s1" "draw_each as s1 = Inr s'"
    by (auto split: sum.splits)
  note st = draw_struct[OF s1(1)]
  have m1: "members s1 = members s" using members_struct[OF st] by (simp add: fun_eq_iff)
  have d1: "dragging s1 = None" using structD(2)[OF st] Cons.prems(2) by simp
  have "settled s1 a" by (rule draw_settles[OF s1(1) Cons.prems(2)])
  then have a: "settled s' a"
    using Cons.prems(3,4) by (intro draw_each_keeps_settled[OF s1(2)]) (auto simp: m1)
  have "\<forall>b \<in> set as. settled s' b"
    using Cons.prems(3,4) by (intro Cons.IH[OF s1(2) d1]) (auto simp: m1)
  with a show ?case by simp
qed

lemma pairwise_members:
  assumes "distinct (concat (map f xs))" "a \<in> set xs" "b \<in> set xs" "a \<noteq> b"
  shows "set (f a) \<inter> set (f b) = {}"
  using assms by (induction xs) auto

lemma tick_idempotent:
  assumes "tick s = Inr s'" "dragging s = None" "ownership s"
  shows "tick s' = Inr s'"
proof -
  note st = tick_struct[OF assms(1)]
  from assms(3) have "distinct (rev (allObjects s))"
    and pw: "\<forall>a \<in> set (rev (allObjects s)). \<forall>b \<in> set (rev (allObjects s)).
       a \<noteq> b \<longrightarrow> set (members s a) \<inter> set (members s b) = {}"
    by (auto simp: ownership_def allCards_def dest: pairwise_members)
  from draw_each_settles[OF assms(1)[unfolded tick_def] assms(2) this]
  have "\<forall>a \<in> set (rev (allObjects s')). settled s' a"
    using structD(1)[OF st] by simp
  moreover have "dragging s' = None" using structD(2)[OF st] assms(2) by simp
  ultimately show ?thesis unfolding tick_def by (rule draw_each_settled[rotated])
qed

subsection \<open>The handlers copy directions and make no new one\<close>

lemma supported_get: "supported s \<Longrightarrow> get_direction s r \<noteq> Unsupported"
  by (cases r) (simp_all add: supported_def)

lemma supported_fields [simp]:
  "supported (s\<lparr>allObjects := objs\<rparr>) = supported s"
  "supported (s\<lparr>dragging := dr\<rparr>) = supported s"
  "supported (s\<lparr>lastDragged := ld\<rparr>) = supported s"
  "supported (s\<lparr>nextId := n\<rparr>) = supported s"
  by (simp_all add: supported_def)

lemma supported_setters [simp]:
  "supported (set_x r v s) = supported s"
  "supported (set_y r v s) = supported s"
  "supported (set_flipped r b s) = supported s"
  "supported (set_items r its s) = supported s"
  by (cases r; auto simp: supported_def first_x_def first_y_def split: list.splits)+

lemma supported_set_direction:
  "supported s \<Longrightarrow> v \<noteq> Unsupported \<Longrightarrow> supported (set_direction r v s)"
  by (cases r) (auto simp: supported_def)

lemma supported_copy [simp]:
  "supported s \<Longrightarrow> supported (set_direction r (get_direction s r') s)"
  by (simp add: supported_set_direction supported_get)

lemma supported_frame:
  assumes "\<forall>i. base (stackHeap s' i) = base (stackHeap s i)"
    "\<forall>i. base (pileHeap s' i) = base (pileHeap s i)"
    "\<forall>x. face (cardHeap s' x) = face (cardHeap s x)"
  shows "supported s' = supported s"
  using assms by (simp add: supported_def base_def face_def)

lemma tick_supported: "tick s = Inr s' \<Longrightarrow> supported s' = supported s"
  by (rule supported_frame) (simp_all add: tick_frame)

lemma hover_supported [simp]: "supported (hover e s) = supported s"
  by (rule supported_frame) (simp_all add: hover_fields)

lemma flip_on_press_supported [simp]: "supported (flip_on_press b r s) = supported s"
  by (simp add: flip_on_press_def reverse_group_def del: set_flipped.simps set_items.simps
      split: option.splits)

lemma mousedown_supported:
  assumes "mousedown e s = Inr s'" "supported s"
  shows "supported s'"
  using assms
  by (auto simp: mousedown_def Let_def dest!: tick_supported split: if_splits option.splits)

lemmas setter_simps = set_x.simps set_y.simps set_flipped.simps set_direction.simps set_items.simps

lemma degenerate_supported:
  assumes "degenerate off s = Inr s'" "supported s"
  shows "supported s'"
  using assms
  by (auto simp: degenerate_def Let_def simp del: setter_simps split: option.splits list.splits)

lemma reposition_supported:
  assumes "reposition idx a0 a1 s = Inr s'" "supported s"
  shows "supported s'"
  using assms
  by (auto simp: reposition_def Let_def simp del: setter_simps split: option.splits direction.splits)

lemma extract_stack_supported:
  assumes "extract_stack e d s = Inr s'" "supported s"
  shows "supported s'"
  using assms
  by (auto simp: extract_stack_def Let_def simp del: setter_simps
      dest!: degenerate_supported reposition_supported
      split: option.splits list.splits prod.splits sum.splits)

lemma extract_pile_supported:
  assumes "extract_pile e d s = Inr s'" "supported s"
  shows "supported s'"
  using assms
  by (auto simp: extract_pile_def Let_def simp del: setter_simps
      dest!: degenerate_supported
      split: option.splits list.splits prod.splits sum.splits)

lemma set_draggedYet_supported [simp]: "supported (set_draggedYet s) = supported s"
  by (simp add: set_draggedYet_def split: option.splits)

lemma first_move_supported:
  assumes "first_move e s = Inr s'" "supported s"
  shows "supported s'"
  using assms
  by (auto simp: first_move_def
      dest: extract_stack_supported extract_pile_supported
      split: option.splits if_splits className.splits sum.splits)

lemma move_target_supported:
  assumes "move_target e s = Inr s'" "supported s"
  shows "supported s'"
  using assms
  by (auto simp: move_target_def Let_def simp del: setter_simps
      split: option.splits if_splits list.splits)

lemma mousemove_supported:
  assumes "mousemove e s = Inr s'" "supported s"
  shows "supported s'"
proof (cases "dragging s")
  case None
  with assms show ?thesis by (simp add: mousemove_def)
next
  case (Some d)
  with assms(1) obtain s2 s3 where
    1: "first_move e (s\<lparr>dragging := Some (d\<lparr>x_d := clientX e, y_d := clientY e\<rparr>)\<rparr>) = Inr s2"
    and 2: "move_target e s2 = Inr s3" and 3: "tick (hover e s3) = Inr s'"
    by (auto simp: mousemove_def Let_def split: sum.splits)
  from first_move_supported[OF 1] assms(2) have "supported s2" by simp
  from move_target_supported[OF 2 this] have "supported s3" .
  with tick_supported[OF 3] show ?thesis by simp
qed

lemma supported_new:
  "supported s \<Longrightarrow> supported (s\<lparr>stackHeap := (stackHeap s)(n := new_Stack px py its)\<rparr>)"
  "supported s \<Longrightarrow> supported (s\<lparr>pileHeap := (pileHeap s)(n := new_Pile px py its)\<rparr>)"
  by (simp_all add: supported_def new_Stack_def new_Pile_def)

lemma supported_card_direction:
  "supported s \<Longrightarrow> supported (set_direction r (direction (cardHeap s i)) s)"
  by (rule supported_set_direction) (simp_all add: supported_def)

lemma merge_cards_supported:
  assumes "merge_cards b i d s = Inr s'" "supported s"
  shows "supported s'"
  using assms
  by (auto simp: merge_cards_def Let_def supported_new supported_card_direction
      simp del: setter_simps
      split: outline.splits prod.splits option.splits ref.splits list.splits if_splits)

lemma drop_supported:
  assumes "supported s"
  shows "drop_on_pile i s = Inr s' \<Longrightarrow> supported s'"
    and "drop_on_stack i d s = Inr s' \<Longrightarrow> supported s'"
    and "drop_on_card c d s = Inr s' \<Longrightarrow> supported s'"
proof -
  show "supported s'" if "drop_on_pile i s = Inr s'"
    using that assms
    by (auto simp: drop_on_pile_def supported_def split: list.splits ref.splits if_splits)
  show "supported s'" if "drop_on_stack i d s = Inr s'"
  proof -
    from that obtain s0 where t: "tick s0 = Inr s'" and "supported s0"
      using assms
      by (auto simp: drop_on_stack_def Let_def supported_def split: list.splits ref.splits if_splits)
    with tick_supported[OF t] show ?thesis by simp
  qed
  show "supported s'" if "drop_on_card c d s = Inr s'"
    using that assms by (auto simp: drop_on_card_def Let_def dest: merge_cards_supported)
qed

lemma mouseup_supported:
  assumes "mouseup s = Inr s'" "supported s"
  shows "supported s'"
proof (cases "dragging s")
  case None
  with assms tick_supported[of s s'] show ?thesis by (simp add: mouseup_def)
next
  case (Some d)
  define s1 where "s1 = s\<lparr>lastDragged := Some d\<rparr>"
  have s1: "supported s1" using assms(2) by (simp add: s1_def)
  from assms(1) Some obtain s2 where
    r: "(case over d of None \<Rightarrow> Inr s1 | Some (PileRef i) \<Rightarrow> drop_on_pile i s1
         | Some (StackRef i) \<Rightarrow> drop_on_stack i d s1 | Some (CardRef i) \<Rightarrow> drop_on_card i d s1) = Inr s2"
    and t: "tick (s2\<lparr>dragging := None\<rparr>) = Inr s'"
    unfolding s1_def by (auto simp: mouseup_def Let_def split: sum.splits)
  from r s1 have "supported s2"
    by (auto split: option.splits ref.splits dest: drop_supported[OF s1])
  with tick_supported[OF t] show ?thesis by simp
qed

subsection \<open>A card released over a card\<close>

lemma card_drop:
  fixes s :: state
  assumes inv: "inv s" and dr: "dragging s = Some d" and obj: "object d = CardRef c"
    and ov: "over d = Some (CardRef a)"
  defines "b \<equiv> band (x_c (cardHeap s c) - x_c (cardHeap s a)) (y_c (cardHeap s c) - y_c (cardHeap s a))
                  (Card_height (cardHeap s a))"
  shows "\<exists>s' pre post. allObjects s = CardRef c # pre @ CardRef a # post
     \<and> mouseup s = Inr s' \<and> dragging s' = None \<and> lastDragged s' = Some d
     \<and> (b = NoOutline \<longrightarrow>
           allObjects s' = allObjects s \<and> nextId s' = nextId s
         \<and> (\<forall>i. base (stackHeap s' i) = base (stackHeap s i))
         \<and> (\<forall>i. base (pileHeap s' i) = base (pileHeap s i)))
     \<and> (b = StackOutline \<longrightarrow>
           allObjects s' = StackRef (nextId s) # pre @ post
         \<and> base (stackHeap s' (nextId s))
             = (direction (cardHeap s a), flipped (cardHeap s a), [a, c],
                x_c (cardHeap s a), y_c (cardHeap s a)))
     \<and> (b = PileOutline \<longrightarrow>
           allObjects s' = PileRef (nextId s) # pre @ post
         \<and> base (pileHeap s' (nextId s))
             = (direction (cardHeap s a), flipped (cardHeap s a), [a, c],
                x_c (cardHeap s a), y_c (cardHeap s a)))"
proof -
  from inv dr obj obtain rest where objs: "allObjects s = CardRef c # rest" and hok: "hover_ok s d"
    by (auto simp: inv_def session_ok_def split: list.splits)
  from hover_index[OF hok ov objs] obtain k where k: "overIndex d = Some (int k)" "0 < k"
    "k \<le> length rest" "rest ! (k - 1) = CardRef a"
    by blast
  define pre where "pre = take (k - 1) rest"
  define post where "post = drop k rest"
  from k(2,3) have "k - 1 < length rest" by simp
  from id_take_nth_drop[OF this] k(2,4) have rest: "rest = pre @ CardRef a # post"
    by (simp add: pre_def post_def)
  define s1 where "s1 = s\<lparr>lastDragged := Some d\<rparr>"
  have objs1: "allObjects s1 = CardRef c # rest" by (simp add: s1_def objs)
  have doc: "drop_on_card a d s1 = merge_cards b a d s1"
    by (simp add: drop_on_card_def b_def s1_def obj Let_def)
  from mouseup_inv[OF inv] obtain s' where up: "mouseup s = Inr s'" by blast
  have up': "mouseup s = (case merge_cards b a d s1 of Inl ex \<Rightarrow> Inl ex
       | Inr s2 \<Rightarrow> tick (s2\<lparr>dragging := None\<rparr>))"
    using dr ov doc[unfolded s1_def] by (simp add: mouseup_def Let_def s1_def)
  have fin: "dragging s' = None \<and> lastDragged s' = Some d \<and> allObjects s' = allObjects s2
      \<and> nextId s' = nextId s2
      \<and> (\<forall>i. base (stackHeap s' i) = base (stackHeap s2 i))
      \<and> (\<forall>i. base (pileHeap s' i) = base (pileHeap s2 i))"
    if m: "merge_cards b a d s1 = Inr s2" and ld: "lastDragged s2 = Some d" for s2
  proof -
    from up up' m have t: "tick (s2\<lparr>dragging := None\<rparr>) = Inr s'" by simp
    note st = tick_struct[OF t]
    from structD(1,2,3)[OF st] tick_lastDragged[OF t] tick_frame(1,2)[OF t] ld
    show ?thesis by simp
  qed
  show ?thesis
  proof (cases b)
    case NoOutline
    then have m: "merge_cards b a d s1 = Inr s1" by (simp add: merge_cards_def)
    from fin[OF m] have "dragging s' = None \<and> lastDragged s' = Some d \<and> allObjects s' = allObjects s
      \<and> nextId s' = nextId s
      \<and> (\<forall>i. base (stackHeap s' i) = base (stackHeap s i))
      \<and> (\<forall>i. base (pileHeap s' i) = base (pileHeap s i))"
      by (simp add: s1_def)
    with NoOutline objs rest up show ?thesis by auto
  next
    case StackOutline
    note m = merge_cards_stack[OF objs1 obj k, of a, folded pre_def post_def, folded StackOutline]
    from fin[OF m] have "dragging s' = None \<and> lastDragged s' = Some d
      \<and> allObjects s' = StackRef (nextId s) # pre @ post
      \<and> base (stackHeap s' (nextId s))
             = (direction (cardHeap s a), flipped (cardHeap s a), [a, c],
                x_c (cardHeap s a), y_c (cardHeap s a))"
      by (simp add: s1_def base_def new_Stack_def)
    with StackOutline objs rest up show ?thesis by auto
  next
    case PileOutline
    note m = merge_cards_pile[OF objs1 obj k, of a, folded pre_def post_def, folded PileOutline]
    from fin[OF m] have "dragging s' = None \<and> lastDragged s' = Some d
      \<and> allObjects s' = PileRef (nextId s) # pre @ post
      \<and> base (pileHeap s' (nextId s))
             = (direction (cardHeap s a), flipped (cardHeap s a), [a, c],
                x_c (cardHeap s a), y_c (cardHeap s a))"
      by (simp add: s1_def base_def new_Pile_def)
    with PileOutline objs rest up show ?thesis by auto
  qed
qed

section \<open>Extraction from a Stack\<close>

text \<open>
  C1. In a reachable state whose session is on a Stack, was not a double click and has not
  moved yet, the first-move block of mousemove removes the card recorded at the press
  (\<open>specCard\<close>, at index \<open>specCardIndex\<close>) from the Stack and puts it first in the
  registry, before the Stack (or before the Stack's last card, when only one is left), the rest
  of the registry unchanged. The card has the Stack's \<open>flipped\<close> and \<open>direction\<close>,
  and lies \<open>specCardIndex * 22.5\<close> from the Stack's anchor along the fan: in +x when
  forward, +y at a quarter turn clockwise, -x at a half turn, -y at three quarters. The session
  becomes a Card session on that card. The handler then returns, with the same registry and
  Stack members, the session still on the card, and the card moved by the event's movement.
\<close>

theorem stack_extraction:
  fixes e :: MouseEvent and s :: state
  assumes "reachable s" "dragging s = Some d" "object d = StackRef j"
    "\<not> doubleClick d" "\<not> draggedYet d"
  shows "\<exists>k c rest s2 s' d'.
       specCardIndex d = Some (int k) \<and> k < length (items (stackHeap s j))
     \<and> c = items (stackHeap s j) ! k \<and> specCard d = Some c
     \<and> allObjects s = StackRef j # rest
     \<and> first_move e (s\<lparr>dragging := Some (d\<lparr>x_d := clientX e, y_d := clientY e\<rparr>)\<rparr>) = Inr s2
     \<and> items (stackHeap s2 j) = take k (items (stackHeap s j)) @ drop (Suc k) (items (stackHeap s j))
     \<and> X_g (stackHeap s2 j) = X_g (stackHeap s j) \<and> Y_g (stackHeap s2 j) = Y_g (stackHeap s j)
     \<and> flipped (stackHeap s2 j) = flipped (stackHeap s j)
     \<and> direction (stackHeap s2 j) = direction (stackHeap s j)
     \<and> allObjects s2 = CardRef c # (case items (stackHeap s2 j) of
                                       [m] \<Rightarrow> CardRef m | _ \<Rightarrow> StackRef j) # rest
     \<and> flipped (cardHeap s2 c) = flipped (stackHeap s2 j)
     \<and> direction (cardHeap s2 c) = direction (stackHeap s2 j)
     \<and> (direction (stackHeap s2 j) = Forward \<longrightarrow>
           x_c (cardHeap s2 c) = X_g (stackHeap s2 j) + real k * 22.5
         \<and> y_c (cardHeap s2 c) = Y_g (stackHeap s2 j))
     \<and> (direction (stackHeap s2 j) = Clockwise90 \<longrightarrow>
           x_c (cardHeap s2 c) = X_g (stackHeap s2 j)
         \<and> y_c (cardHeap s2 c) = Y_g (stackHeap s2 j) + real k * 22.5)
     \<and> (direction (stackHeap s2 j) = Turned180 \<longrightarrow>
           x_c (cardHeap s2 c) = X_g (stackHeap s2 j) - real k * 22.5
         \<and> y_c (cardHeap s2 c) = Y_g (stackHeap s2 j))
     \<and> (direction (stackHeap s2 j) = Clockwise270 \<longrightarrow>
           x_c (cardHeap s2 c) = X_g (stackHeap s2 j)
         \<and> y_c (cardHeap s2 c) = Y_g (stackHeap s2 j) - real k * 22.5)
     \<and> dragging s2 = Some (retarget e (CardRef c))
     \<and> mousemove e s = Inr s'
     \<and> allObjects s' = allObjects s2
     \<and> items (stackHeap s' j) = items (stackHeap s2 j)
     \<and> dragging s' = Some d' \<and> object d' = CardRef c \<and> type_d d' = TCard
     \<and> flipped (cardHeap s' c) = flipped (stackHeap s j)
     \<and> direction (cardHeap s' c) = direction (stackHeap s j)
     \<and> x_c (cardHeap s' c) = x_c (cardHeap s2 c) + movementX e
     \<and> y_c (cardHeap s' c) = y_c (cardHeap s2 c) + movementY e"
proof -
  note i = reachable_inv[OF assms(1)]
  define st where "st = stackHeap s j"
  define s1 where "s1 = s\<lparr>dragging := Some (d\<lparr>x_d := clientX e, y_d := clientY e\<rparr>)\<rparr>"
  from stack_first_move[OF i assms(2-5), of e, folded st_def s1_def]
  obtain k c rest s2 where f:
    "specCardIndex d = Some (int k)" "k < length (items st)" "c = items st ! k"
    "specCard d = Some c" "allObjects s = StackRef j # rest"
    "first_move e s1 = Inr s2" "inv s2"
    "allObjects s2 = CardRef c # (case take k (items st) @ drop (Suc k) (items st) of
                                       [m] \<Rightarrow> CardRef m | _ \<Rightarrow> StackRef j) # rest"
    "dragging s2 = Some (retarget e (CardRef c))"
    "stackHeap s2 = (stackHeap s)(j := st\<lparr>items := take k (items st) @ drop (Suc k) (items st)\<rparr>)"
    "flipped (cardHeap s2 c) = flipped st" "direction (cardHeap s2 c) = direction st"
    "direction st = Forward \<longrightarrow>
           x_c (cardHeap s2 c) = X_g st + real k * 22.5 \<and> y_c (cardHeap s2 c) = Y_g st"
    "direction st = Clockwise90 \<longrightarrow>
           x_c (cardHeap s2 c) = X_g st \<and> y_c (cardHeap s2 c) = Y_g st + real k * 22.5"
    "direction st = Turned180 \<longrightarrow>
           x_c (cardHeap s2 c) = X_g st - real k * 22.5 \<and> y_c (cardHeap s2 c) = Y_g st"
    "direction st = Clockwise270 \<longrightarrow>
           x_c (cardHeap s2 c) = X_g st \<and> y_c (cardHeap s2 c) = Y_g st - real k * 22.5"
    by blast
  have ty2: "type_d (retarget e (CardRef c)) = TCard" by (simp add: retarget_def)
  from finish_move[OF f(7) f(9) ty2, of e]
  obtain s' d' where g:
    "(case move_target e s2 of Inl ex \<Rightarrow> Inl ex | Inr s3 \<Rightarrow> tick (hover e s3)) = Inr s'"
    "allObjects s' = allObjects s2" "dragging s' = Some d'" "object d' = CardRef c"
    "type_d d' = TCard" "\<forall>i. base (stackHeap s' i) = base (stackHeap s2 i)"
    "\<forall>x. face (cardHeap s' x) = face (cardHeap s2 x)"
    "x_c (cardHeap s' c) = x_c (cardHeap s2 c) + movementX e"
    "y_c (cardHeap s' c) = y_c (cardHeap s2 c) + movementY e"
    using f(8) by (auto simp: retarget_def)
  have mm: "mousemove e s = Inr s'"
    using mousemove_split[OF assms(2) f(6)[unfolded s1_def]] g(1) by simp
  have st2: "items (stackHeap s2 j) = take k (items st) @ drop (Suc k) (items st)"
    "X_g (stackHeap s2 j) = X_g st" "Y_g (stackHeap s2 j) = Y_g st"
    "flipped (stackHeap s2 j) = flipped st" "direction (stackHeap s2 j) = direction st"
    by (simp_all add: f(10))
  have it': "items (stackHeap s' j) = items (stackHeap s2 j)"
    using baseD(3)[OF g(6)[rule_format, of j]] .
  have fc: "flipped (cardHeap s' c) = flipped st" "direction (cardHeap s' c) = direction st"
    using faceD[OF g(7)[rule_format, of c]] f(11,12) by simp_all
  show ?thesis
    apply (rule exI[of _ k], rule exI[of _ c], rule exI[of _ rest], rule exI[of _ s2],
        rule exI[of _ s'], rule exI[of _ d'])
    unfolding st2 it' st_def[symmetric] s1_def[symmetric]
    using f(1-6,8,9,11-16) mm g(2-5,8,9) fc
    by simp
qed

theorem stack_extraction_witness:
  "reachable scene_pressed \<and> dragging scene_pressed = Some pressed_drag
   \<and> object pressed_drag = StackRef 0 \<and> \<not> doubleClick pressed_drag \<and> \<not> draggedYet pressed_drag
   \<and> specCard pressed_drag = Some 1
   \<and> (\<exists>s' d'. mousemove (move_by 635 212 1010 5 2) scene_pressed = Inr s'
        \<and> allObjects s' = [CardRef 1, StackRef 0, PileRef 0, CardRef 7, CardRef 8, CardRef 9, CardRef 10]
        \<and> items (stackHeap s' 0) = [0, 2, 3]
        \<and> dragging s' = Some d' \<and> object d' = CardRef 1
        \<and> x_c (cardHeap s' 1) = 627.5 \<and> y_c (cardHeap s' 1) = 202
        \<and> flipped (cardHeap s' 1) = False \<and> direction (cardHeap s' 1) = Forward)"
proof -
  have d: "dragging scene_pressed = Some pressed_drag"
    by (simp add: scene_pressed_def)
  have o: "object pressed_drag = StackRef 0" "\<not> doubleClick pressed_drag"
    "\<not> draggedYet pressed_drag" "specCard pressed_drag = Some 1"
    by (simp_all add: pressed_drag_def)
  have sc: "stackHeap scene_pressed 0 = new_Stack 600 200 [0, 1, 2, 3]"
    "allObjects scene_pressed = [StackRef 0, PileRef 0, CardRef 7, CardRef 8, CardRef 9, CardRef 10]"
    by (simp_all add: scene_pressed_def scene_def)
  have k1: "specCardIndex pressed_drag = Some (int k) \<longleftrightarrow> k = 1" for k
    by (auto simp: pressed_drag_def)
  from stack_extraction[OF reachable_scene_pressed d o(1-3), of "move_by 635 212 1010 5 2"]
  show ?thesis
    using reachable_scene_pressed d o
    unfolding sc k1
    by (auto simp: new_Stack_def move_by_def)
qed

section \<open>A group left with one card\<close>

text \<open>
  C3 (amended). In a reachable state whose session is on a Stack or a Pile of two cards, was
  not a double click and has not moved yet, the first-move block of mousemove takes one card out
  and puts the other card in the registry where the group was; the group is no longer in the
  registry. The card left has the group's \<open>flipped\<close> and \<open>direction\<close>. After a
  Stack it lies at the Stack's \<open>(x, y)\<close>; after a Pile it lies at \<open>(x - 2, y - 2)\<close>,
  where the Pile drew the card below its top. The handler then returns with the same registry
  and that card unchanged.
\<close>

theorem degeneration_to_card:
  fixes e :: MouseEvent and s :: state
  assumes "reachable s" "dragging s = Some d" "\<not> doubleClick d" "\<not> draggedYet d"
    "object d = StackRef j \<and> length (items (stackHeap s j)) = 2
     \<or> object d = PileRef j \<and> length (items (pileHeap s j)) = 2"
  shows "\<exists>c m rest s2 s'. allObjects s = object d # rest
     \<and> first_move e (s\<lparr>dragging := Some (d\<lparr>x_d := clientX e, y_d := clientY e\<rparr>)\<rparr>) = Inr s2
     \<and> allObjects s2 = CardRef c # CardRef m # rest
     \<and> object d \<notin> set (allObjects s2)
     \<and> mset [c, m] = mset (members s (object d))
     \<and> flipped (cardHeap s2 m) = get_flipped s (object d)
     \<and> direction (cardHeap s2 m) = get_direction s (object d)
     \<and> x_c (cardHeap s2 m) = get_x s (object d) - (if constructor_name (object d) = TPile then 2 else 0)
     \<and> y_c (cardHeap s2 m) = get_y s (object d) - (if constructor_name (object d) = TPile then 2 else 0)
     \<and> mousemove e s = Inr s' \<and> allObjects s' = allObjects s2
     \<and> flipped (cardHeap s' m) = flipped (cardHeap s2 m)
     \<and> direction (cardHeap s' m) = direction (cardHeap s2 m)
     \<and> x_c (cardHeap s' m) = x_c (cardHeap s2 m)
     \<and> y_c (cardHeap s' m) = y_c (cardHeap s2 m)"
proof -
  note i = reachable_inv[OF assms(1)]
  from assms(5) show ?thesis
  proof (elim disjE conjE)
    assume o: "object d = StackRef j" and two: "length (items (stackHeap s j)) = 2"
    from stack_degenerates[OF i assms(2) o assms(3,4) two, of e]
    show ?thesis unfolding o by (simp; blast)
  next
    assume o: "object d = PileRef j" and two: "length (items (pileHeap s j)) = 2"
    from pile_degenerates[OF i assms(2) o assms(3,4) two, of e]
    obtain c m rest s2 s' where f: "allObjects s = PileRef j # rest"
      "first_move e (s\<lparr>dragging := Some (d\<lparr>x_d := clientX e, y_d := clientY e\<rparr>)\<rparr>) = Inr s2"
      "allObjects s2 = CardRef c # CardRef m # rest"
      "PileRef j \<notin> set (allObjects s2)"
      "items (pileHeap s j) = [c, m]"
      "flipped (cardHeap s2 m) = flipped (pileHeap s j)"
      "direction (cardHeap s2 m) = direction (pileHeap s j)"
      "x_c (cardHeap s2 m) = X_g (pileHeap s j) - 2"
      "y_c (cardHeap s2 m) = Y_g (pileHeap s j) - 2"
      "mousemove e s = Inr s'" "allObjects s' = allObjects s2"
      "flipped (cardHeap s' m) = flipped (cardHeap s2 m)"
      "direction (cardHeap s' m) = direction (cardHeap s2 m)"
      "x_c (cardHeap s' m) = x_c (cardHeap s2 m)"
      "y_c (cardHeap s' m) = y_c (cardHeap s2 m)"
      by blast
    show ?thesis
      apply (rule exI[of _ c], rule exI[of _ m], rule exI[of _ rest], rule exI[of _ s2],
          rule exI[of _ s'])
      unfolding o using f by simp
  qed
qed

lemma reachable_pairs: "reachable pairs"
  by (rule reachable.start)
     (simp_all add: pairs_def ownership_def allCards_def fresh_ids_def no_lastOutline_def
        new_Stack_def new_Pile_def)

lemma mousedown_pairs_stack: "mousedown (press 610 210 1000) pairs = Inr pairs_stack_pressed"
  by (simp add: mousedown_defs scene_defs geometry_defs Let_def js_nth_def pairs_def
      pairs_stack_pressed_def pairs_stack_drag_def fun_eq_iff)

lemma mousedown_pairs_pile: "mousedown (press 310 210 1000) pairs = Inr pairs_pile_pressed"
  by (simp add: mousedown_defs scene_defs geometry_defs Let_def js_nth_def pairs_def
      pairs_pile_pressed_def pairs_pile_drag_def fun_eq_iff)

lemma reachable_pairs_stack: "reachable pairs_stack_pressed"
  by (rule reachable.down[OF reachable_pairs mousedown_pairs_stack])

lemma reachable_pairs_pile: "reachable pairs_pile_pressed"
  by (rule reachable.down[OF reachable_pairs mousedown_pairs_pile])

theorem degeneration_to_card_witness:
  "reachable pairs_stack_pressed \<and> dragging pairs_stack_pressed = Some pairs_stack_drag
   \<and> \<not> doubleClick pairs_stack_drag \<and> \<not> draggedYet pairs_stack_drag
   \<and> object pairs_stack_drag = StackRef 0 \<and> length (items (stackHeap pairs_stack_pressed 0)) = 2
   \<and> get_x pairs_stack_pressed (StackRef 0) = 600 \<and> get_y pairs_stack_pressed (StackRef 0) = 200
   \<and> (\<exists>c m s'. mousemove (move_by 615 212 1010 5 2) pairs_stack_pressed = Inr s'
         \<and> allObjects s' = [CardRef c, CardRef m, PileRef 0]
         \<and> StackRef 0 \<notin> set (allObjects s')
         \<and> mset [c, m] = mset [0, 1]
         \<and> x_c (cardHeap s' m) = 600 \<and> y_c (cardHeap s' m) = 200
         \<and> \<not> flipped (cardHeap s' m) \<and> direction (cardHeap s' m) = Forward)"
proof -
  have d: "dragging pairs_stack_pressed = Some pairs_stack_drag"
    by (simp add: pairs_stack_pressed_def)
  have o: "\<not> doubleClick pairs_stack_drag" "\<not> draggedYet pairs_stack_drag"
    "object pairs_stack_drag = StackRef 0"
    by (simp_all add: pairs_stack_drag_def)
  have sc: "stackHeap pairs_stack_pressed 0 = new_Stack 600 200 [0, 1]"
    "allObjects pairs_stack_pressed = [StackRef 0, PileRef 0]"
    by (simp_all add: pairs_stack_pressed_def pairs_def)
  have two: "object pairs_stack_drag = StackRef 0
       \<and> length (items (stackHeap pairs_stack_pressed 0)) = 2
     \<or> object pairs_stack_drag = PileRef 0
       \<and> length (items (pileHeap pairs_stack_pressed 0)) = 2"
    by (simp add: o sc new_Stack_def)
  from degeneration_to_card[OF reachable_pairs_stack d o(1,2) two, of "move_by 615 212 1010 5 2"]
  show ?thesis
    using reachable_pairs_stack d
    by (auto simp: o sc new_Stack_def)
qed

text \<open>
  The card left by a Pile at (300, 200) lies at (298, 198), not at the Pile's position.
\<close>

theorem pile_remainder_offset:
  "dragging pairs_pile_pressed = Some pairs_pile_drag
   \<and> object pairs_pile_drag = PileRef 0
   \<and> \<not> doubleClick pairs_pile_drag \<and> \<not> draggedYet pairs_pile_drag
   \<and> items (pileHeap pairs_pile_pressed 0) = [2, 3]
   \<and> X_g (pileHeap pairs_pile_pressed 0) = 300 \<and> Y_g (pileHeap pairs_pile_pressed 0) = 200
   \<and> \<not> isl (mousemove (move_by 312 211 1010 2 1) pairs_pile_pressed)
   \<and> allObjects (projr (mousemove (move_by 312 211 1010 2 1) pairs_pile_pressed))
       = [CardRef 2, CardRef 3, StackRef 0]
   \<and> x_c (cardHeap (projr (mousemove (move_by 312 211 1010 2 1) pairs_pile_pressed)) 3) = 298
   \<and> y_c (cardHeap (projr (mousemove (move_by 312 211 1010 2 1) pairs_pile_pressed)) 3) = 198"
proof -
  have d: "dragging pairs_pile_pressed = Some pairs_pile_drag"
    by (simp add: pairs_pile_pressed_def)
  have o: "object pairs_pile_drag = PileRef 0" "\<not> doubleClick pairs_pile_drag"
    "\<not> draggedYet pairs_pile_drag"
    by (simp_all add: pairs_pile_drag_def)
  have sc: "pileHeap pairs_pile_pressed 0 = new_Pile 300 200 [2, 3]"
    "allObjects pairs_pile_pressed = [PileRef 0, StackRef 0]"
    by (simp_all add: pairs_pile_pressed_def pairs_def)
  have two: "length (items (pileHeap pairs_pile_pressed 0)) = 2"
    by (simp add: sc new_Pile_def)
  from pile_degenerates[OF reachable_inv[OF reachable_pairs_pile] d o two,
      of "move_by 312 211 1010 2 1"]
  show ?thesis
    using d
    by (auto simp: o sc new_Pile_def)
qed

section \<open>Events that find no session to act on\<close>

text \<open>
  C9 (amended). A mousedown while a session is active and a mousemove while none is return the
  state as it is. A mouseup while no session is active does what \<open>tick\<close> does: it redraws.
  The redraw leaves the registry, the session, the last-drag record, the members, position,
  direction and flipped state of every Stack and Pile, and the face of every card as they are;
  it leaves the place of every card that is in no registered Pile as it is; and on a state with
  sound ownership a second mouseup changes nothing at all.
\<close>

theorem ignored_events:
  "(dragging s \<noteq> None \<longrightarrow> mousedown e s = Inr s)
   \<and> (dragging s = None \<longrightarrow> mousemove e s = Inr s \<and> mouseup s = tick s)
   \<and> (dragging s = None \<and> mouseup s = Inr s' \<longrightarrow>
         allObjects s' = allObjects s \<and> dragging s' = None \<and> lastDragged s' = lastDragged s
       \<and> nextId s' = nextId s
       \<and> (\<forall>i. base (stackHeap s' i) = base (stackHeap s i))
       \<and> (\<forall>i. base (pileHeap s' i) = base (pileHeap s i))
       \<and> (\<forall>x. face (cardHeap s' x) = face (cardHeap s x))
       \<and> (\<forall>x. (\<forall>j. PileRef j \<in> set (allObjects s) \<longrightarrow> x \<notin> set (items (pileHeap s j)))
              \<longrightarrow> place (cardHeap s' x) = place (cardHeap s x))
       \<and> (ownership s \<longrightarrow> mouseup s' = Inr s'))"
proof (intro conjI impI)
  assume "dragging s \<noteq> None"
  then show "mousedown e s = Inr s" by (simp add: mousedown_def)
next
  assume "dragging s = None"
  then show "mousemove e s = Inr s" by (simp add: mousemove_def)
next
  assume "dragging s = None"
  then show "mouseup s = tick s" by (simp add: mouseup_def)
next
  assume a: "dragging s = None \<and> mouseup s = Inr s'"
  then have idle: "dragging s = None" by simp
  from a have t: "tick s = Inr s'" by (auto simp: mouseup_def)
  note st = tick_struct[OF t]
  show "allObjects s' = allObjects s" by (rule structD(1)[OF st])
  show idle': "dragging s' = None" using structD(2)[OF st] idle by simp
  show "lastDragged s' = lastDragged s" by (rule tick_lastDragged[OF t])
  show "nextId s' = nextId s" by (rule structD(3)[OF st])
  show "\<forall>i. base (stackHeap s' i) = base (stackHeap s i)" using tick_frame(1)[OF t] by simp
  show "\<forall>i. base (pileHeap s' i) = base (pileHeap s i)" using tick_frame(2)[OF t] by simp
  show "\<forall>x. face (cardHeap s' x) = face (cardHeap s x)" using tick_frame(3)[OF t] by simp
  show "\<forall>x. (\<forall>j. PileRef j \<in> set (allObjects s) \<longrightarrow> x \<notin> set (items (pileHeap s j)))
              \<longrightarrow> place (cardHeap s' x) = place (cardHeap s x)"
    using tick_frame(4)[OF t] by simp
  show "mouseup s' = Inr s'" if "ownership s"
    using tick_idempotent[OF t idle that] idle' by (simp add: mouseup_def)
qed

lemma mouseup_scene: "mouseup scene = Inr scene_drawn"
  by (simp add: mouseup_def tick_def Card_draw_def Stack_draw_def Pile_draw_def isSpecCard_def
      scene_defs Let_def scene_drawn_def fun_eq_iff)

theorem ignored_events_witness:
  "dragging scene_pressed \<noteq> None
   \<and> mousedown (press 10 10 2000) scene_pressed = Inr scene_pressed
   \<and> dragging scene = None \<and> ownership scene
   \<and> mousemove (move_by 20 20 2000 1 1) scene = Inr scene
   \<and> mouseup scene = Inr scene_drawn
   \<and> allObjects scene_drawn = allObjects scene \<and> dragging scene_drawn = None
   \<and> lastDragged scene_drawn = lastDragged scene
   \<and> place (cardHeap scene_drawn 7) = place (cardHeap scene 7)
   \<and> mouseup scene_drawn = Inr scene_drawn"
proof -
  have a: "dragging scene_pressed \<noteq> None" by (simp add: scene_pressed_def)
  have i: "dragging scene = None" by (simp add: scene_def)
  have o: "ownership scene"
    by (simp add: scene_def ownership_def allCards_def new_Stack_def new_Pile_def)
  have free: "\<forall>j. PileRef j \<in> set (allObjects scene) \<longrightarrow> 7 \<notin> set (items (pileHeap scene j))"
    by (simp add: scene_def new_Pile_def)
  from ignored_events[of scene_pressed "press 10 10 2000"] a
  have 1: "mousedown (press 10 10 2000) scene_pressed = Inr scene_pressed" by simp
  from ignored_events[of scene "move_by 20 20 2000 1 1" scene_drawn] i o mouseup_scene free
  have 2: "mousemove (move_by 20 20 2000 1 1) scene = Inr scene"
    "allObjects scene_drawn = allObjects scene" "dragging scene_drawn = None"
    "lastDragged scene_drawn = lastDragged scene"
    "place (cardHeap scene_drawn 7) = place (cardHeap scene 7)"
    "mouseup scene_drawn = Inr scene_drawn"
    by simp_all
  from a 1 i o 2 mouseup_scene show ?thesis by simp
qed

text \<open>
  Before the first redraw the top card of the Pile is where it was made, at (0, 0). A mouseup
  with no session redraws, and the redraw puts that card at the Pile's position.
\<close>

theorem idle_mouseup_redraws:
  "dragging scene = None \<and> mouseup scene = Inr scene_drawn
   \<and> x_c (cardHeap scene 4) = 0 \<and> y_c (cardHeap scene 4) = 0
   \<and> x_c (cardHeap scene_drawn 4) = 300 \<and> y_c (cardHeap scene_drawn 4) = 200
   \<and> scene_drawn \<noteq> scene"
proof -
  have x: "x_c (cardHeap scene 4) = 0" "x_c (cardHeap scene_drawn 4) = 300"
    "y_c (cardHeap scene 4) = 0" "y_c (cardHeap scene_drawn 4) = 200"
    by (simp_all add: scene_drawn_def scene_def mkCard_def)
  then have "scene_drawn \<noteq> scene" by auto
  with x mouseup_scene show ?thesis by (simp add: scene_def)
qed

section \<open>Directions that are none of the four\<close>

text \<open>
  C8 (amended). \<open>direction\<close> is a field with no check: an assignment stores any value.
  With a direction that is none of the four, no \<open>case\<close> of the geometry matches:
  \<open>isIn\<close>, \<open>cornerX\<close> and \<open>cornerY\<close> of a Card, a Stack and a Pile are
  \<open>undefined\<close>, the raw index of \<open>getSpecCard\<close> is \<open>undefined\<close>, and with the
  \<open>isIn\<close> check \<open>getSpecCard\<close> returns \<open>false\<close>. The handlers only copy
  directions: when every object has one of the four directions before a handler, every object has
  one after it.
\<close>

theorem direction_not_validated:
  "get_direction (set_direction r v s) r = v
   \<and> (direction c = Unsupported \<longrightarrow>
         Card_isIn c px py = None \<and> Card_cornerX c = None \<and> Card_cornerY c = None)
   \<and> (direction st = Unsupported \<longrightarrow>
         Stack_isIn h st px py = None \<and> Stack_cornerX h st = None \<and> Stack_cornerY h st = None
       \<and> getSpecCard h st px py True False False = RetIndex None
       \<and> getSpecCard h st px py True False True = RetFalse)
   \<and> (direction p = Unsupported \<longrightarrow>
         Pile_isIn h p px py = None \<and> Pile_cornerX h p = None \<and> Pile_cornerY h p = None)
   \<and> (supported s \<and> (mousedown e s = Inr s' \<or> mousemove e s = Inr s' \<or> mouseup s = Inr s')
        \<longrightarrow> supported s')"
proof (intro conjI impI)
  show "get_direction (set_direction r v s) r = v" by (cases r) simp_all
next
  assume "direction c = Unsupported"
  then show "Card_isIn c px py = None" "Card_cornerX c = None" "Card_cornerY c = None"
    by (simp_all add: Card_isIn_def Card_cornerX_def Card_cornerY_def)
next
  assume "direction st = Unsupported"
  then show "Stack_isIn h st px py = None" "Stack_cornerX h st = None" "Stack_cornerY h st = None"
    "getSpecCard h st px py True False False = RetIndex None"
    "getSpecCard h st px py True False True = RetFalse"
    by (simp_all add: Stack_isIn_def Stack_cornerX_def Stack_cornerY_def getSpecCard_def
        Stack_index_def)
next
  assume "direction p = Unsupported"
  then show "Pile_isIn h p px py = None" "Pile_cornerX h p = None" "Pile_cornerY h p = None"
    by (simp_all add: Pile_isIn_def Pile_cornerX_def Pile_cornerY_def)
next
  assume "supported s \<and> (mousedown e s = Inr s' \<or> mousemove e s = Inr s' \<or> mouseup s = Inr s')"
  then show "supported s'"
    using mousedown_supported mousemove_supported mouseup_supported by blast
qed

lemma supported_scene: "supported scene"
  by (simp add: supported_def scene_def mkCard_def new_Stack_def new_Pile_def)

theorem direction_not_validated_witness:
  "direction ((mkCard 77.5 10)\<lparr>direction := Unsupported\<rparr>) = Unsupported
   \<and> Card_isIn ((mkCard 77.5 10)\<lparr>direction := Unsupported\<rparr>) 80 20 = None
   \<and> direction ((new_Stack 600 200 [0, 1, 2, 3])\<lparr>direction := Unsupported\<rparr>) = Unsupported
   \<and> Stack_isIn (cardHeap scene) ((new_Stack 600 200 [0, 1, 2, 3])\<lparr>direction := Unsupported\<rparr>) 80 20 = None
   \<and> getSpecCard (cardHeap scene) ((new_Stack 600 200 [0, 1, 2, 3])\<lparr>direction := Unsupported\<rparr>)
         80 20 True False False = RetIndex None
   \<and> direction ((new_Pile 300 200 [4, 5, 6])\<lparr>direction := Unsupported\<rparr>) = Unsupported
   \<and> Pile_isIn (cardHeap scene) ((new_Pile 300 200 [4, 5, 6])\<lparr>direction := Unsupported\<rparr>) 80 20 = None
   \<and> supported scene \<and> mousedown (press 630 210 1000) scene = Inr scene_pressed
   \<and> supported scene_pressed"
proof -
  have d: "direction ((mkCard 77.5 10)\<lparr>direction := Unsupported\<rparr>) = Unsupported"
    "direction ((new_Stack 600 200 [0, 1, 2, 3])\<lparr>direction := Unsupported\<rparr>) = Unsupported"
    "direction ((new_Pile 300 200 [4, 5, 6])\<lparr>direction := Unsupported\<rparr>) = Unsupported"
    by simp_all
  from direction_not_validated[of "CardRef 7" Unsupported scene
      "(mkCard 77.5 10)\<lparr>direction := Unsupported\<rparr>" 80 20
      "(new_Stack 600 200 [0, 1, 2, 3])\<lparr>direction := Unsupported\<rparr>" "cardHeap scene"
      "(new_Pile 300 200 [4, 5, 6])\<lparr>direction := Unsupported\<rparr>"
      "press 630 210 1000" scene_pressed]
    d supported_scene mousedown_scene
  show ?thesis by simp
qed

text \<open>
  The assignment of a direction that is none of the four is stored, and \<open>isIn\<close> is then
  \<open>undefined\<close> at a point where it was true.
\<close>

theorem unsupported_direction_stored:
  "get_direction scene_turned (CardRef 7) = Unsupported
   \<and> isIn scene (CardRef 7) 80 20 = Some True
   \<and> isIn scene_turned (CardRef 7) 80 20 = None
   \<and> Card_cornerX (cardHeap scene_turned 7) = None
   \<and> Card_cornerY (cardHeap scene_turned 7) = None"
  by (simp add: scene_turned_def scene_defs geometry_defs)

section \<open>A card released over a card\<close>

text \<open>
  C2 (amended). In a reachable state whose session is on a Card \<open>c\<close> and has recorded
  another Card \<open>a\<close> under the pointer, with \<open>dx\<close> and \<open>dy\<close> the differences of
  their \<open>x\<close> and \<open>y\<close> and \<open>h\<close> the height of \<open>a\<close>, mouseup returns with no
  session. When \<open>dy < 0.5 * h\<close> and \<open>22.5 \<le> dx < 45\<close>, both cards have left the
  registry and a new Stack is first in it, with members \<open>[a, c]\<close>, at the position of
  \<open>a\<close>, with the \<open>flipped\<close> and \<open>direction\<close> of \<open>a\<close>. When
  \<open>dy < 0.5 * h\<close> and \<open>- 22.5 \<le> dx < 22.5\<close>, the same holds with a new Pile.
  Otherwise the registry and the members of every Stack and Pile are unchanged. The numbers 22.5
  and 45 are not multiplied by the scale of a card, and \<open>dy\<close> has no lower bound.
\<close>

theorem card_on_card_drop:
  fixes s :: state
  assumes "reachable s" "dragging s = Some d" "object d = CardRef c" "over d = Some (CardRef a)"
  defines "dx \<equiv> x_c (cardHeap s c) - x_c (cardHeap s a)"
    and "dy \<equiv> y_c (cardHeap s c) - y_c (cardHeap s a)"
    and "h \<equiv> Card_height (cardHeap s a)"
  shows "\<exists>s' rest. allObjects s = CardRef c # rest \<and> CardRef a \<in> set rest \<and> a \<noteq> c
     \<and> mouseup s = Inr s' \<and> dragging s' = None
     \<and> (dy < 0.5 * h \<and> 22.5 \<le> dx \<and> dx < 45 \<longrightarrow>
           allObjects s' = StackRef (nextId s) # remove1 (CardRef a) rest
         \<and> StackRef (nextId s) \<notin> set (allObjects s)
         \<and> items (stackHeap s' (nextId s)) = [a, c]
         \<and> X_g (stackHeap s' (nextId s)) = x_c (cardHeap s a)
         \<and> Y_g (stackHeap s' (nextId s)) = y_c (cardHeap s a)
         \<and> flipped (stackHeap s' (nextId s)) = flipped (cardHeap s a)
         \<and> direction (stackHeap s' (nextId s)) = direction (cardHeap s a))
     \<and> (dy < 0.5 * h \<and> - 22.5 \<le> dx \<and> dx < 22.5 \<longrightarrow>
           allObjects s' = PileRef (nextId s) # remove1 (CardRef a) rest
         \<and> PileRef (nextId s) \<notin> set (allObjects s)
         \<and> items (pileHeap s' (nextId s)) = [a, c]
         \<and> X_g (pileHeap s' (nextId s)) = x_c (cardHeap s a)
         \<and> Y_g (pileHeap s' (nextId s)) = y_c (cardHeap s a)
         \<and> flipped (pileHeap s' (nextId s)) = flipped (cardHeap s a)
         \<and> direction (pileHeap s' (nextId s)) = direction (cardHeap s a))
     \<and> (\<not> (dy < 0.5 * h \<and> - 22.5 \<le> dx \<and> dx < 45) \<longrightarrow>
           allObjects s' = allObjects s
         \<and> (\<forall>i. items (stackHeap s' i) = items (stackHeap s i))
         \<and> (\<forall>i. items (pileHeap s' i) = items (pileHeap s i)))"
proof -
  note i = reachable_inv[OF assms(1)]
  define b where "b = band dx dy h"
  from card_drop[OF i assms(2-4), folded dx_def dy_def h_def, folded b_def]
  obtain s' pre post where f: "allObjects s = CardRef c # pre @ CardRef a # post"
    "mouseup s = Inr s'" "dragging s' = None"
    "b = NoOutline \<longrightarrow>
           allObjects s' = allObjects s \<and> nextId s' = nextId s
         \<and> (\<forall>i. base (stackHeap s' i) = base (stackHeap s i))
         \<and> (\<forall>i. base (pileHeap s' i) = base (pileHeap s i))"
    "b = StackOutline \<longrightarrow>
           allObjects s' = StackRef (nextId s) # pre @ post
         \<and> base (stackHeap s' (nextId s))
             = (direction (cardHeap s a), flipped (cardHeap s a), [a, c],
                x_c (cardHeap s a), y_c (cardHeap s a))"
    "b = PileOutline \<longrightarrow>
           allObjects s' = PileRef (nextId s) # pre @ post
         \<and> base (pileHeap s' (nextId s))
             = (direction (cardHeap s a), flipped (cardHeap s a), [a, c],
                x_c (cardHeap s a), y_c (cardHeap s a))"
    by blast
  from i have dist: "distinct (allObjects s)" and fresh: "fresh_ids s"
    by (simp_all add: inv_def ownership_def)
  from dist f(1) have ac: "a \<noteq> c" and rm: "remove1 (CardRef a) (pre @ CardRef a # post) = pre @ post"
    by (auto simp: remove1_append)
  from fresh have new: "StackRef (nextId s) \<notin> set (allObjects s)" "PileRef (nextId s) \<notin> set (allObjects s)"
    by (auto simp: fresh_ids_def)
  have bs: "b = StackOutline" if "dy < 0.5 * h \<and> 22.5 \<le> dx \<and> dx < 45"
    using that by (simp add: b_def band_def)
  have bp: "b = PileOutline" if "dy < 0.5 * h \<and> - 22.5 \<le> dx \<and> dx < 22.5"
    using that by (simp add: b_def band_def)
  have bn: "b = NoOutline" if "\<not> (dy < 0.5 * h \<and> - 22.5 \<le> dx \<and> dx < 45)"
    using that by (auto simp: b_def band_def)
  show ?thesis
    apply (rule exI[of _ s'], rule exI[of _ "pre @ CardRef a # post"])
    using f(1-3) ac new f(4)[THEN mp, OF bn] f(5)[THEN mp, OF bs] f(6)[THEN mp, OF bp]
    unfolding rm
    by (auto simp: base_def)
qed

lemma mousedown_scene_card: "mousedown (press 80 20 1000) scene = Inr scene_card_pressed"
  by (simp add: mousedown_defs scene_defs geometry_defs Let_def js_nth_def scene_card_pressed_def
      card_drag_def fun_eq_iff)

lemmas mousemove_defs = mousemove_def first_move_def set_draggedYet_def move_target_def hover_def
  mark_card_def mark_stack_def band_def rawIndex_def tick_def Card_draw_def Stack_draw_def
  Pile_draw_def isSpecCard_def

lemma mousemove_scene_card:
  "mousemove (move_by 85 20 1010 7.5 0) scene_card_pressed = Inr scene_hover"
  by (simp add: mousemove_defs scene_defs geometry_defs Let_def js_nth_def scene_card_pressed_def
      card_drag_def scene_hover_def hover_drag_def fun_eq_iff)

lemma reachable_scene_hover: "reachable scene_hover"
  by (rule reachable.move[OF reachable.down[OF reachable_scene mousedown_scene_card]
        mousemove_scene_card])

lemma scene_hover_facts:
  "dragging scene_hover = Some hover_drag" "object hover_drag = CardRef 7"
  "over hover_drag = Some (CardRef 8)"
  "allObjects scene_hover = [CardRef 7, StackRef 0, PileRef 0, CardRef 8, CardRef 9, CardRef 10]"
  "nextId scene_hover = 1"
  "cardHeap scene_hover 7 = mkCard 85 10" "cardHeap scene_hover 8 = mkCard 55 10"
  by (simp_all add: scene_hover_def scene_card_pressed_def hover_drag_def card_drag_def scene_def)

theorem card_on_card_drop_witness:
  "reachable scene_hover \<and> dragging scene_hover = Some hover_drag
   \<and> object hover_drag = CardRef 7 \<and> over hover_drag = Some (CardRef 8)
   \<and> x_c (cardHeap scene_hover 7) - x_c (cardHeap scene_hover 8) = 30
   \<and> y_c (cardHeap scene_hover 7) - y_c (cardHeap scene_hover 8) = 0
   \<and> Card_height (cardHeap scene_hover 8) = 122
   \<and> (\<exists>s'. mouseup scene_hover = Inr s' \<and> dragging s' = None
         \<and> allObjects s' = [StackRef 1, StackRef 0, PileRef 0, CardRef 9, CardRef 10]
         \<and> items (stackHeap s' 1) = [8, 7]
         \<and> X_g (stackHeap s' 1) = 55 \<and> Y_g (stackHeap s' 1) = 10
         \<and> \<not> flipped (stackHeap s' 1) \<and> direction (stackHeap s' 1) = Forward)"
proof -
  note f = scene_hover_facts
  have g: "x_c (cardHeap scene_hover 7) - x_c (cardHeap scene_hover 8) = 30"
    "y_c (cardHeap scene_hover 7) - y_c (cardHeap scene_hover 8) = 0"
    "Card_height (cardHeap scene_hover 8) = 122"
    by (simp_all add: f mkCard_def img_def Card_height_def)
  from card_on_card_drop[OF reachable_scene_hover f(1-3)]
  obtain s' where "mouseup scene_hover = Inr s'" "dragging s' = None"
    "allObjects s' = [StackRef 1, StackRef 0, PileRef 0, CardRef 9, CardRef 10]"
    "items (stackHeap s' 1) = [8, 7]"
    "X_g (stackHeap s' 1) = 55" "Y_g (stackHeap s' 1) = 10"
    "\<not> flipped (stackHeap s' 1)" "direction (stackHeap s' 1) = Forward"
    unfolding g unfolding f by (auto simp: mkCard_def)
  with reachable_scene_hover f(1-3) g show ?thesis by blast
qed

text \<open>
  Cards have scale 0.5. With the dragged card 30 to the right of the hovered one, the bands of
  the spec, scaled by 0.5, give no merge; the handler makes a Stack of the two.
\<close>

theorem merge_bands_not_scaled:
  "dragging scene_hover = Some hover_drag
   \<and> object hover_drag = CardRef 7 \<and> over hover_drag = Some (CardRef 8)
   \<and> size_c (cardHeap scene_hover 7) = 0.5
   \<and> x_c (cardHeap scene_hover 7) - x_c (cardHeap scene_hover 8) = 30
   \<and> y_c (cardHeap scene_hover 7) - y_c (cardHeap scene_hover 8) = 0
   \<and> Card_height (cardHeap scene_hover 8) = 122
   \<and> spec_band 0.5 30 0 122 = NoOutline
   \<and> allObjects scene_hover = [CardRef 7, StackRef 0, PileRef 0, CardRef 8, CardRef 9, CardRef 10]
   \<and> \<not> isl (mouseup scene_hover)
   \<and> allObjects (projr (mouseup scene_hover))
       = [StackRef 1, StackRef 0, PileRef 0, CardRef 9, CardRef 10]
   \<and> items (stackHeap (projr (mouseup scene_hover)) 1) = [8, 7]"
proof -
  note f = scene_hover_facts
  have g: "x_c (cardHeap scene_hover 7) - x_c (cardHeap scene_hover 8) = 30"
    "y_c (cardHeap scene_hover 7) - y_c (cardHeap scene_hover 8) = 0"
    "Card_height (cardHeap scene_hover 8) = 122" "size_c (cardHeap scene_hover 7) = 0.5"
    by (simp_all add: f mkCard_def img_def Card_height_def)
  have b: "band (x_c (cardHeap scene_hover 7) - x_c (cardHeap scene_hover 8))
      (y_c (cardHeap scene_hover 7) - y_c (cardHeap scene_hover 8))
      (Card_height (cardHeap scene_hover 8)) = StackOutline"
    unfolding g by (simp add: band_def)
  from card_drop[OF reachable_inv[OF reachable_scene_hover] f(1-3), unfolded b]
  obtain s' where "mouseup scene_hover = Inr s'"
    "allObjects s' = [StackRef 1, StackRef 0, PileRef 0, CardRef 9, CardRef 10]"
    "items (stackHeap s' 1) = [8, 7]"
    unfolding f by (auto simp: base_def Cons_eq_append_conv append_eq_Cons_conv)
  with f g show ?thesis by (simp add: spec_band_def)
qed

section \<open>Runs of the handlers on the scenes\<close>

lemmas extract_defs = extract_stack_def extract_pile_def splice_remove_def splice_start_def
  splice_replace_def splice_insert_def degenerate_def reposition_def retarget_def

lemma mousemove_scene_pressed:
  "mousemove (move_by 630 210 1010 0 0) scene_pressed = Inr scene_extracted"
  by (simp add: mousemove_defs extract_defs scene_defs geometry_defs Let_def js_nth_def
      scene_pressed_def pressed_drag_def scene_extracted_def extracted_drag_def fun_eq_iff)

lemma mouseup_scene_extracted: "mouseup scene_extracted = Inr scene_reinserted"
  by (simp add: mouseup_def drop_on_stack_def rawIndex_def extract_defs tick_def Card_draw_def
      Stack_draw_def Pile_draw_def isSpecCard_def scene_defs geometry_defs Let_def js_nth_def
      scene_pressed_def pressed_drag_def scene_extracted_def extracted_drag_def
      scene_reinserted_def fun_eq_iff)


lemma mousemove_pairs_stack:
  "mousemove (move_by 615 212 1010 5 2) pairs_stack_pressed = Inr pairs_split"
  by (simp add: mousemove_defs extract_defs scene_defs geometry_defs Let_def js_nth_def
      pairs_stack_pressed_def pairs_stack_drag_def pairs_def pairs_split_def split_drag_def
      fun_eq_iff)

lemma mouseup_scene_hover: "mouseup scene_hover = Inr scene_merged"
  by (simp add: mouseup_def drop_on_card_def merge_cards_def band_def extract_defs tick_def
      Card_draw_def Stack_draw_def Pile_draw_def isSpecCard_def scene_defs geometry_defs Let_def
      js_nth_def scene_hover_def hover_drag_def scene_card_pressed_def card_drag_def
      scene_merged_def fun_eq_iff)

section \<open>Double clicks\<close>






section \<open>Ownership in every reachable state\<close>

text \<open>
  C6. In every state that the handlers can reach from a start state (no session, every
  entity once in the registry, every card either a registry entry or a member of exactly
  one registered group), each entity is in the registry once and each card is owned once;
  and each of the three handlers returns, in a state that is reachable again and holds
  the same cards, none lost and none twice.
\<close>

theorem ownership_preserved:
  assumes "reachable s"
  shows "ownership s
     \<and> (\<exists>s'. mousedown e1 s = Inr s' \<and> reachable s' \<and> ownership s' \<and> mset (allCards s') = mset (allCards s))
     \<and> (\<exists>s'. mousemove e2 s = Inr s' \<and> reachable s' \<and> ownership s' \<and> mset (allCards s') = mset (allCards s))
     \<and> (\<exists>s'. mouseup s = Inr s' \<and> reachable s' \<and> ownership s' \<and> mset (allCards s') = mset (allCards s))"
proof -
  note i = reachable_inv[OF assms]
  from mousedown_inv[OF i, of e1] obtain a where a: "mousedown e1 s = Inr a" "inv a"
    "mset (allCards a) = mset (allCards s)" by blast
  from mousemove_inv[OF i, of e2] obtain b where b: "mousemove e2 s = Inr b" "inv b"
    "mset (allCards b) = mset (allCards s)" by blast
  from mouseup_inv[OF i] obtain c where c: "mouseup s = Inr c" "inv c"
    "mset (allCards c) = mset (allCards s)" by blast
  from a b c i assms show ?thesis
    by (auto intro: reachable.down reachable.move reachable.up inv_ownership)
qed

text \<open>
  The theorem on five steps that change the registry: a press that raises a lone card from the
  third place to the first, a move that takes a card out of the Stack, a release that puts the
  card back into the Stack, a move that leaves a Stack with one card, which takes the Stack's
  place, and a release that merges two lone cards into a new Stack.
\<close>

theorem ownership_preserved_witness:
  "reachable scene
   \<and> allObjects scene = [StackRef 0, PileRef 0, CardRef 7, CardRef 8, CardRef 9, CardRef 10]
   \<and> mousedown (press 80 20 1000) scene = Inr scene_card_pressed
   \<and> allObjects scene_card_pressed
       = [CardRef 7, StackRef 0, PileRef 0, CardRef 8, CardRef 9, CardRef 10]
   \<and> reachable scene_card_pressed \<and> ownership scene_card_pressed
   \<and> mset (allCards scene_card_pressed) = mset (allCards scene)
   \<and> reachable scene_pressed
   \<and> mousemove (move_by 630 210 1010 0 0) scene_pressed = Inr scene_extracted
   \<and> allObjects scene_extracted
       = [CardRef 1, StackRef 0, PileRef 0, CardRef 7, CardRef 8, CardRef 9, CardRef 10]
   \<and> items (stackHeap scene_extracted 0) = [0, 2, 3]
   \<and> reachable scene_extracted \<and> ownership scene_extracted
   \<and> mset (allCards scene_extracted) = mset (allCards scene_pressed)
   \<and> mouseup scene_extracted = Inr scene_reinserted
   \<and> allObjects scene_reinserted
       = [StackRef 0, PileRef 0, CardRef 7, CardRef 8, CardRef 9, CardRef 10]
   \<and> items (stackHeap scene_reinserted 0) = [0, 1, 2, 3]
   \<and> reachable scene_reinserted \<and> ownership scene_reinserted
   \<and> mset (allCards scene_reinserted) = mset (allCards scene_extracted)
   \<and> reachable pairs_stack_pressed
   \<and> allObjects pairs_stack_pressed = [StackRef 0, PileRef 0]
   \<and> mousemove (move_by 615 212 1010 5 2) pairs_stack_pressed = Inr pairs_split
   \<and> allObjects pairs_split = [CardRef 0, CardRef 1, PileRef 0]
   \<and> reachable pairs_split \<and> ownership pairs_split
   \<and> mset (allCards pairs_split) = mset (allCards pairs_stack_pressed)
   \<and> reachable scene_hover
   \<and> allObjects scene_hover
       = [CardRef 7, StackRef 0, PileRef 0, CardRef 8, CardRef 9, CardRef 10]
   \<and> mouseup scene_hover = Inr scene_merged
   \<and> allObjects scene_merged = [StackRef 1, StackRef 0, PileRef 0, CardRef 9, CardRef 10]
   \<and> items (stackHeap scene_merged 1) = [8, 7]
   \<and> reachable scene_merged \<and> ownership scene_merged
   \<and> mset (allCards scene_merged) = mset (allCards scene_hover)"
proof -
  have regs:
    "allObjects scene = [StackRef 0, PileRef 0, CardRef 7, CardRef 8, CardRef 9, CardRef 10]"
    "allObjects scene_card_pressed
       = [CardRef 7, StackRef 0, PileRef 0, CardRef 8, CardRef 9, CardRef 10]"
    "allObjects scene_extracted
       = [CardRef 1, StackRef 0, PileRef 0, CardRef 7, CardRef 8, CardRef 9, CardRef 10]"
    "items (stackHeap scene_extracted 0) = [0, 2, 3]"
    "allObjects scene_reinserted
       = [StackRef 0, PileRef 0, CardRef 7, CardRef 8, CardRef 9, CardRef 10]"
    "items (stackHeap scene_reinserted 0) = [0, 1, 2, 3]"
    "allObjects pairs_stack_pressed = [StackRef 0, PileRef 0]"
    "allObjects pairs_split = [CardRef 0, CardRef 1, PileRef 0]"
    "allObjects scene_hover
       = [CardRef 7, StackRef 0, PileRef 0, CardRef 8, CardRef 9, CardRef 10]"
    "allObjects scene_merged = [StackRef 1, StackRef 0, PileRef 0, CardRef 9, CardRef 10]"
    "items (stackHeap scene_merged 1) = [8, 7]"
    by (simp_all add: scene_def scene_card_pressed_def scene_extracted_def scene_reinserted_def
        scene_pressed_def pairs_stack_pressed_def pairs_def pairs_split_def scene_hover_def
        scene_merged_def new_Stack_def)
  from ownership_preserved[OF reachable_scene, of "press 80 20 1000"] mousedown_scene_card
  have raise: "reachable scene_card_pressed \<and> ownership scene_card_pressed
      \<and> mset (allCards scene_card_pressed) = mset (allCards scene)"
    by auto
  from ownership_preserved[OF reachable_scene_pressed, of _ "move_by 630 210 1010 0 0"]
    mousemove_scene_pressed
  have ext: "reachable scene_extracted \<and> ownership scene_extracted
      \<and> mset (allCards scene_extracted) = mset (allCards scene_pressed)"
    by auto
  then have re: "reachable scene_extracted" by simp
  from ownership_preserved[OF re] mouseup_scene_extracted
  have ins: "reachable scene_reinserted \<and> ownership scene_reinserted
      \<and> mset (allCards scene_reinserted) = mset (allCards scene_extracted)"
    by auto
  from ownership_preserved[OF reachable_pairs_stack, of _ "move_by 615 212 1010 5 2"]
    mousemove_pairs_stack
  have deg: "reachable pairs_split \<and> ownership pairs_split
      \<and> mset (allCards pairs_split) = mset (allCards pairs_stack_pressed)"
    by auto
  from ownership_preserved[OF reachable_scene_hover] mouseup_scene_hover
  have mrg: "reachable scene_merged \<and> ownership scene_merged
      \<and> mset (allCards scene_merged) = mset (allCards scene_hover)"
    by auto
  from regs raise ext ins deg mrg reachable_scene reachable_scene_pressed reachable_pairs_stack
    reachable_scene_hover mousedown_scene_card mousemove_scene_pressed mouseup_scene_extracted
    mousemove_pairs_stack mouseup_scene_hover
  show ?thesis by simp
qed

end
